theory Spec2Isabelle
  imports Main "HOL-Library.Char_ord" "HOL-Library.List_Lexorder"
begin

section \<open>Data model of the Klotski solver (try.cpp)\<close>

text \<open>
  \<^verbatim>\<open>using Labels = set<char>; using State = array<char,20>;\<close>
  \<^verbatim>\<open>using Graph = map<State, set<State>>; using Solution = map<State, State>;\<close>
  A state is the list of its cells in row-major order; the board of the program has
  20 cells (4 columns, 5 rows), which the theorems state as \<open>length s = 20\<close>.
  Characters are ordered by their code (\<open>Char_ord\<close>), arrays lexicographically
  (\<open>List_Lexorder\<close>), as \<^verbatim>\<open>std::array::operator<\<close> does.
  The ordered containers are sets and maps; a loop over one of them runs over
  \<open>sorted_list_of_set\<close>, and \<^verbatim>\<open>begin()\<close> is \<open>Min\<close>.
\<close>

type_synonym Labels = "char set"
type_synonym State = "char list"
type_synonym Graph = "State \<rightharpoonup> State set"
type_synonym Solution = "State \<rightharpoonup> State"

datatype Direction = LEFT | RIGHT | TOP | BOTTOM

text \<open>
  The two ways the program can stop abnormally: an \<^verbatim>\<open>assert\<close> that fails, and
  the dereference of an end iterator (\<^verbatim>\<open>*l\<close> with \<^verbatim>\<open>l == labels.end()\<close>,
  \<^verbatim>\<open>it->first\<close> after a \<^verbatim>\<open>find\<close> that found nothing), which no check guards.
\<close>

datatype error = AssertionFailed | EndIteratorDereferenced

abbreviation blank :: char where
  "blank \<equiv> CHR '' ''"

text \<open>A loop whose body can stop the program: the first error ends it.\<close>

fun foldE :: "('a \<Rightarrow> 's \<Rightarrow> error + 's) \<Rightarrow> 'a list \<Rightarrow> 's \<Rightarrow> error + 's" where
  "foldE f [] s = Inr s"
| "foldE f (x # xs) s = (case f x s of Inl e \<Rightarrow> Inl e | Inr s' \<Rightarrow> foldE f xs s')"

section \<open>Normalize and GatherLabels\<close>

text \<open>
  The inner loop of Normalize, on one cell: \<^verbatim>\<open>if (state[j] == c) state[j] = *l;
  else if (state[j] == *l) state[j] = c;\<close>
\<close>

definition SwapLabel :: "char \<Rightarrow> char \<Rightarrow> char \<Rightarrow> char" where
  "SwapLabel c l x = (if x = c then l else if x = l then c else x)"

text \<open>
  The outer loop of Normalize from cell \<open>i\<close> on. The first argument is the part of the
  sorted label set from the cursor \<open>l\<close> on, the second the cells \<open>i, i+1, ...\<close>; the
  loop never reads or writes a cell before \<open>i\<close>, so the result is the new contents of
  the cells from \<open>i\<close> on. The inner loop starts at \<open>j = i\<close>, where the cell holds \<open>c\<close>
  and becomes \<open>*l\<close>; the cells after it are mapped by \<open>SwapLabel\<close>.
  \<^verbatim>\<open>break\<close> returns the cells as they are.
\<close>

fun Normalize_loop :: "char list \<Rightarrow> State \<Rightarrow> error + State" where
  "Normalize_loop ls [] = Inr []"
| "Normalize_loop ls (c # cs) =
    (if c = blank then map_sum id ((#) c) (Normalize_loop ls cs)
     else case ls of
       [] \<Rightarrow> Inl EndIteratorDereferenced
     | l # ls' \<Rightarrow>
        if c < l then map_sum id ((#) c) (Normalize_loop ls cs)
        else if c = l then
          (if ls' = [] then Inr (c # cs)
           else map_sum id ((#) c) (Normalize_loop ls' cs))
        else
          (let cs' = map (SwapLabel c l) cs in
           if ls' = [] then Inr (l # cs')
           else map_sum id ((#) l) (Normalize_loop ls' cs')))"

definition Normalize :: "State \<Rightarrow> Labels \<Rightarrow> error + State" where
  "Normalize state labels = Normalize_loop (sorted_list_of_set labels) state"

definition GatherLabels :: "State \<Rightarrow> Labels" where
  "GatherLabels initial = fold (\<lambda>c labels. if c \<noteq> blank then insert c labels else labels) initial {}"

section \<open>Board geometry\<close>

text \<open>\<^verbatim>\<open>size_t\<close> arithmetic wraps around modulo \<open>2^64\<close>.\<close>

definition size_t_mod :: nat where
  "size_t_mod = 18446744073709551616"

fun IsEdge :: "Direction \<Rightarrow> nat \<Rightarrow> bool" where
  "IsEdge LEFT index = (index mod 4 = 0)"
| "IsEdge RIGHT index = (index mod 4 = 3)"
| "IsEdge TOP index = (index < 4)"
| "IsEdge BOTTOM index = (index > 15)"

fun Move :: "Direction \<Rightarrow> nat \<Rightarrow> nat" where
  "Move LEFT index = (index + (size_t_mod - 1)) mod size_t_mod"
| "Move RIGHT index = (index + 1) mod size_t_mod"
| "Move TOP index = (index + (size_t_mod - 4)) mod size_t_mod"
| "Move BOTTOM index = (index + 4) mod size_t_mod"

section \<open>AddNeighbors and GenerateGraph\<close>

text \<open>The cells of \<open>current\<close> that hold \<open>label\<close>, in increasing order.\<close>

definition Indices :: "State \<Rightarrow> char \<Rightarrow> nat list" where
  "Indices current label = filter (\<lambda>i. current ! i = label) [0..<length current]"

text \<open>
  The loop that computes \<^verbatim>\<open>canmove\<close>: it stops at the first cell on the edge or with
  a neighbour that is neither empty nor of the block. \<open>Move\<close> is evaluated only for a
  cell that is not on the edge, so the read is inside the array.
\<close>

fun CanMove :: "State \<Rightarrow> char \<Rightarrow> Direction \<Rightarrow> nat list \<Rightarrow> bool" where
  "CanMove current label direction [] = True"
| "CanMove current label direction (i # indices) =
    (if IsEdge direction i then False
     else (let neighbor = current ! Move direction i in
           if neighbor \<noteq> blank \<and> neighbor \<noteq> label then False
           else CanMove current label direction indices))"

text \<open>The successor before normalisation: clear the block's cells, then fill the shifted ones.\<close>

definition MoveBlock :: "State \<Rightarrow> char \<Rightarrow> Direction \<Rightarrow> nat list \<Rightarrow> State" where
  "MoveBlock current label direction indices =
     fold (\<lambda>i newstate. newstate[Move direction i := label]) indices
       (fold (\<lambda>i newstate. newstate[i := blank]) indices current)"

text \<open>\<^verbatim>\<open>graph_iterator->second.insert(newstate)\<close>, the iterator being at \<open>current\<close>.\<close>

definition InsertNeighbor :: "State \<Rightarrow> State \<Rightarrow> Graph \<Rightarrow> Graph" where
  "InsertNeighbor current newstate graph =
     (case graph current of
        None \<Rightarrow> graph
      | Some neighbors \<Rightarrow> graph(current \<mapsto> insert newstate neighbors))"

text \<open>The body of the loop over the directions.\<close>

definition AddNeighbors_direction ::
  "Labels \<Rightarrow> State \<Rightarrow> char \<Rightarrow> nat list \<Rightarrow> Direction \<Rightarrow> Graph \<times> State set
     \<Rightarrow> error + Graph \<times> State set" where
  "AddNeighbors_direction labels current label indices direction gs =
     (if \<not> CanMove current label direction indices then Inr gs
      else case Normalize (MoveBlock current label direction indices) labels of
        Inl e \<Rightarrow> Inl e
      | Inr newstate \<Rightarrow>
          (let graph = InsertNeighbor current newstate (fst gs) in
           if newstate \<in> dom graph then Inr (graph, snd gs)
           else Inr (graph, insert newstate (snd gs))))"

text \<open>The body of the loop over the labels.\<close>

definition AddNeighbors_label ::
  "Labels \<Rightarrow> State \<Rightarrow> char \<Rightarrow> Graph \<times> State set \<Rightarrow> error + Graph \<times> State set" where
  "AddNeighbors_label labels current label gs =
     foldE (AddNeighbors_direction labels current label (Indices current label))
       [LEFT, RIGHT, TOP, BOTTOM] gs"

text \<open>
  AddNeighbors takes the graph and the states to explore and returns both; the caller
  calls it on a non-empty set only.
\<close>

definition AddNeighbors ::
  "Graph \<times> State set \<Rightarrow> Labels \<Rightarrow> error + Graph \<times> State set" where
  "AddNeighbors gs labels =
     (let current = Min (snd gs);
          states_to_explore = snd gs - {current} in
      if current \<in> dom (fst gs) then Inl AssertionFailed
      else foldE (AddNeighbors_label labels current) (sorted_list_of_set labels)
             ((fst gs)(current \<mapsto> {}), states_to_explore))"

text \<open>The loop of GenerateGraph; \<open>None\<close> is a loop that never ends.\<close>

partial_function (option) GenerateGraph_loop ::
  "Labels \<Rightarrow> Graph \<times> State set \<Rightarrow> (error + Graph) option" where
  "GenerateGraph_loop labels gs =
     (if snd gs = {} then Some (Inr (fst gs))
      else case AddNeighbors gs labels of
        Inl e \<Rightarrow> Some (Inl e)
      | Inr gs' \<Rightarrow> GenerateGraph_loop labels gs')"

definition GenerateGraph :: "State \<Rightarrow> (error + Graph) option" where
  "GenerateGraph initial =
     (let labels = GatherLabels initial in
      case Normalize initial labels of
        Inl e \<Rightarrow> Some (Inl e)
      | Inr initial' \<Rightarrow> GenerateGraph_loop labels (Map.empty, {initial'}))"

section \<open>IsSolved, Solve and Print\<close>

definition IsSolved :: "State \<Rightarrow> bool" where
  "IsSolved state \<longleftrightarrow>
     state ! 13 = state ! 14 \<and> state ! 14 = state ! 17 \<and>
     state ! 17 = state ! 18 \<and> state ! 18 \<noteq> blank"

text \<open>The body of the first loop of Solve, over the vertices of the graph.\<close>

definition Solve_seed :: "State \<Rightarrow> Solution \<times> State list \<Rightarrow> error + Solution \<times> State list" where
  "Solve_seed vertex sq =
     (if \<not> IsSolved vertex then Inr sq
      else if vertex \<in> dom (fst sq) then Inl AssertionFailed
      else Inr ((fst sq)(vertex \<mapsto> vertex), snd sq @ [vertex]))"

text \<open>The body of the loop over the neighbours of \<open>state\<close>: the first write wins.\<close>

definition Solve_visit :: "State \<Rightarrow> State \<Rightarrow> Solution \<times> State list \<Rightarrow> Solution \<times> State list" where
  "Solve_visit state neighbor sq =
     (if neighbor \<in> dom (fst sq) then sq
      else ((fst sq)(neighbor \<mapsto> state), snd sq @ [neighbor]))"

text \<open>
  The second loop of Solve. The queue is a list, its front the head; the front is
  popped after its neighbours are pushed. \<^verbatim>\<open>graph.find(state)\<close> is not checked.
\<close>

partial_function (option) Solve_loop ::
  "Graph \<Rightarrow> Solution \<times> State list \<Rightarrow> (error + Solution) option" where
  "Solve_loop graph sq =
     (case snd sq of
        [] \<Rightarrow> Some (Inr (fst sq))
      | state # rest \<Rightarrow>
          (case graph state of
             None \<Rightarrow> Some (Inl EndIteratorDereferenced)
           | Some neighbors \<Rightarrow>
               (let sq' = fold (Solve_visit state) (sorted_list_of_set neighbors) sq in
                Solve_loop graph (fst sq', tl (snd sq')))))"

definition Solve :: "Graph \<Rightarrow> (error + Solution) option" where
  "Solve graph =
     (case foldE Solve_seed (sorted_list_of_set (dom graph)) (Map.empty, []) of
        Inl e \<Rightarrow> Some (Inl e)
      | Inr sq \<Rightarrow>
          (case Solve_loop graph sq of
             None \<Rightarrow> None
           | Some (Inl e) \<Rightarrow> Some (Inl e)
           | Some (Inr solution) \<Rightarrow>
               if card (dom solution) = card (dom graph) then Some (Inr solution)
               else Some (Inl AssertionFailed)))"

text \<open>
  Print returns the states it writes. \<open>first\<close> and \<open>second\<close> are the entry the iterator
  is at; the iterator is dereferenced without a check after each \<^verbatim>\<open>find\<close>.
\<close>

partial_function (option) Print_loop ::
  "Solution \<Rightarrow> State \<Rightarrow> State \<Rightarrow> State list \<Rightarrow> (error + State list) option" where
  "Print_loop solution first second out =
     (if first = second then Some (Inr out)
      else case solution second of
        None \<Rightarrow> Some (Inl EndIteratorDereferenced)
      | Some next \<Rightarrow> Print_loop solution second next (out @ [second]))"

definition Print :: "State \<Rightarrow> Solution \<Rightarrow> (error + State list) option" where
  "Print initial solution =
     (case solution initial of
        None \<Rightarrow> Some (Inl EndIteratorDereferenced)
      | Some next \<Rightarrow> Print_loop solution initial next [initial])"

text \<open>The initial state of \<^verbatim>\<open>main\<close> (Set 1 Level 19).\<close>

definition main_initial :: State where
  "main_initial = ''1223'' @ ''1223'' @ ''4567'' @ ''899a'' @ ''8  a''"

section \<open>Auxiliary notions used in the statements and proofs\<close>

text \<open>
  After the cursor has been advanced, the loop of Normalize goes on only if the cursor is
  not at the end of the label set.
\<close>

definition Normalize_next :: "char list \<Rightarrow> State \<Rightarrow> error + State" where
  "Normalize_next ls cs = (if ls = [] then Inr cs else Normalize_loop ls cs)"

text \<open>
  Every cell from \<open>i\<close> on is empty, holds a label at or after the cursor, or holds a label
  smaller than all of these (one that was seen before).
\<close>

definition cells_ok :: "char list \<Rightarrow> State \<Rightarrow> bool" where
  "cells_ok ls cs \<longleftrightarrow> (\<forall>c\<in>set cs. c = blank \<or> c \<in> set ls \<or> (\<forall>l\<in>set ls. c < l))"

text \<open>A relabelling of a state: \<open>pi\<close> on every non-empty cell, empty cells unchanged.\<close>

definition Relabel :: "(char \<Rightarrow> char) \<Rightarrow> State \<Rightarrow> State" where
  "Relabel pi s = map (\<lambda>c. if c = blank then blank else pi c) s"

text \<open>The permutation that exchanges the labels 1 and 2.\<close>

definition swap12 :: "char \<Rightarrow> char" where
  "swap12 c = (if c = CHR ''1'' then CHR ''2'' else if c = CHR ''2'' then CHR ''1'' else c)"

text \<open>
  The test and the successor that AddNeighbors computes for a label and a direction,
  with the indices it collects for the label.
\<close>

definition Feasible :: "State \<Rightarrow> char \<Rightarrow> Direction \<Rightarrow> bool" where
  "Feasible current label d = CanMove current label d (Indices current label)"

definition Slide :: "State \<Rightarrow> char \<Rightarrow> Direction \<Rightarrow> State" where
  "Slide current label d = MoveBlock current label d (Indices current label)"

text \<open>The normalised results of the feasible moves of the blocks of the label set.\<close>

definition Successors :: "Labels \<Rightarrow> State \<Rightarrow> State set" where
  "Successors labels current =
     {t. \<exists>label\<in>labels. \<exists>d. Feasible current label d \<and>
           Normalize (Slide current label d) labels = Inr t}"

text \<open>
  The effect on the graph and on the states to explore of inserting the states \<open>T\<close> as
  neighbours of \<open>current\<close>, one after the other.
\<close>

definition absorb :: "State \<Rightarrow> State set \<Rightarrow> Graph \<times> State set \<Rightarrow> Graph \<times> State set" where
  "absorb current T gs =
     ((fst gs)(current \<mapsto> (case fst gs current of None \<Rightarrow> {} | Some N \<Rightarrow> N) \<union> T),
      snd gs \<union> (T - dom (fst gs)))"

text \<open>A state of the board that is normalised and uses labels of the label set only.\<close>

definition wf_state :: "Labels \<Rightarrow> State \<Rightarrow> bool" where
  "wf_state labels s \<longleftrightarrow> length s = 20 \<and> GatherLabels s \<subseteq> labels \<and> Normalize s labels = Inr s"

text \<open>
  The states reachable from \<open>init\<close> by feasible moves, each followed by Normalize.
\<close>

inductive Reachable :: "Labels \<Rightarrow> State \<Rightarrow> State \<Rightarrow> bool" for labels init where
  start: "Reachable labels init init"
| step: "Reachable labels init s \<Longrightarrow> t \<in> Successors labels s \<Longrightarrow> Reachable labels init t"

text \<open>
  The graph and the states to explore at the head of the loop of GenerateGraph, in each
  iteration of a run that starts from the normalised initial state \<open>init\<close>.
\<close>

inductive Run :: "Labels \<Rightarrow> State \<Rightarrow> Graph \<times> State set \<Rightarrow> bool" for labels init where
  initial: "Run labels init (Map.empty, {init})"
| explore: "Run labels init gs \<Longrightarrow> snd gs \<noteq> {} \<Longrightarrow> AddNeighbors gs labels = Inr gs'
          \<Longrightarrow> Run labels init gs'"

text \<open>
  The loop invariant of GenerateGraph: no vertex is waiting to be explored, each vertex
  has all its successors as neighbours and each of them is a vertex or waiting, and
  everything stored is reachable from the initial state, which is stored.
\<close>

definition Inv :: "Labels \<Rightarrow> State \<Rightarrow> Graph \<times> State set \<Rightarrow> bool" where
  "Inv labels init gs \<longleftrightarrow>
     finite (snd gs) \<and> dom (fst gs) \<inter> snd gs = {} \<and>
     (\<forall>v\<in>dom (fst gs). fst gs v = Some (Successors labels v) \<and>
                         Successors labels v \<subseteq> dom (fst gs) \<union> snd gs) \<and>
     (\<forall>v\<in>dom (fst gs) \<union> snd gs. Reachable labels init v) \<and>
     init \<in> dom (fst gs) \<union> snd gs"

text \<open>
  A small board as an example: one block of four rows, which can only slide down and
  up again. The graph has two vertices; the second one is solved.
\<close>

definition ex1 :: State where
  "ex1 = ''aaaa'' @ ''aaaa'' @ ''aaaa'' @ ''aaaa'' @ ''    ''"

definition ex2 :: State where
  "ex2 = ''    '' @ ''aaaa'' @ ''aaaa'' @ ''aaaa'' @ ''aaaa''"

definition ex_graph :: Graph where
  "ex_graph = [ex1 \<mapsto> {ex2}, ex2 \<mapsto> {ex1}]"

text \<open>The opposite direction.\<close>

fun Opposite :: "Direction \<Rightarrow> Direction" where
  "Opposite LEFT = RIGHT"
| "Opposite RIGHT = LEFT"
| "Opposite TOP = BOTTOM"
| "Opposite BOTTOM = TOP"

text \<open>The states of the loop of GenerateGraph that follow a given one.\<close>

inductive RunFrom :: "Labels \<Rightarrow> Graph \<times> State set \<Rightarrow> Graph \<times> State set \<Rightarrow> bool"
  for labels gs0 where
  same: "RunFrom labels gs0 gs0"
| later: "RunFrom labels gs0 gs \<Longrightarrow> snd gs \<noteq> {} \<Longrightarrow> AddNeighbors gs labels = Inr gs'
          \<Longrightarrow> RunFrom labels gs0 gs'"

text \<open>An edge of the graph: \<open>v\<close> is in the neighbour set of \<open>u\<close>.\<close>

definition Edge :: "Graph \<Rightarrow> State \<Rightarrow> State \<Rightarrow> bool" where
  "Edge g u v \<longleftrightarrow> (\<exists>N. g u = Some N \<and> v \<in> N)"

text \<open>\<open>Walk g u n v\<close>: there is a path of \<open>n\<close> edges from \<open>u\<close> to \<open>v\<close>.\<close>

inductive Walk :: "Graph \<Rightarrow> State \<Rightarrow> nat \<Rightarrow> State \<Rightarrow> bool" for g u where
  stay: "Walk g u 0 u"
| move: "Walk g u n v \<Longrightarrow> Edge g v w \<Longrightarrow> Walk g u (Suc n) w"

text \<open>Some solved vertex has a path of \<open>n\<close> edges to \<open>v\<close>; \<open>n\<close> is the least such number.\<close>

definition FromGoal :: "Graph \<Rightarrow> nat \<Rightarrow> State \<Rightarrow> bool" where
  "FromGoal g n v \<longleftrightarrow> (\<exists>t. t \<in> dom g \<and> IsSolved t \<and> Walk g t n v)"

definition MinDist :: "Graph \<Rightarrow> State \<Rightarrow> nat \<Rightarrow> bool" where
  "MinDist g v n \<longleftrightarrow> FromGoal g n v \<and> (\<forall>m. FromGoal g m v \<longrightarrow> n \<le> m)"

text \<open>
  \<open>Steps solution v n\<close>: following the map from \<open>v\<close> reaches a state that is mapped to
  itself after exactly \<open>n\<close> lookups, and not before.
\<close>

inductive Steps :: "Solution \<Rightarrow> State \<Rightarrow> nat \<Rightarrow> bool" for solution where
  here: "solution v = Some v \<Longrightarrow> Steps solution v 0"
| hop: "solution v = Some w \<Longrightarrow> w \<noteq> v \<Longrightarrow> Steps solution w n \<Longrightarrow> Steps solution v (Suc n)"

text \<open>
  What GenerateGraph guarantees of its graph: finitely many vertices, each with finitely
  many neighbours, which are vertices.
\<close>

definition graph_ok :: "Graph \<Rightarrow> bool" where
  "graph_ok g \<longleftrightarrow> finite (dom g) \<and> (\<forall>v N. g v = Some N \<longrightarrow> finite N \<and> N \<subseteq> dom g)"

text \<open>The loop invariant of Solve.\<close>

definition SolveInv :: "Graph \<Rightarrow> Solution \<times> State list \<Rightarrow> bool" where
  "SolveInv g sq \<longleftrightarrow>
     set (snd sq) \<subseteq> dom (fst sq) \<and> dom (fst sq) \<subseteq> dom g \<and>
     (\<forall>v\<in>dom g. IsSolved v \<longrightarrow> fst sq v = Some v) \<and>
     (\<forall>v w. fst sq v = Some w \<longrightarrow>
        (w = v \<and> IsSolved v) \<or> (w \<noteq> v \<and> \<not> IsSolved v \<and> Edge g w v)) \<and>
     (\<forall>v\<in>dom (fst sq). \<exists>n. Steps (fst sq) v n \<and> MinDist g v n) \<and>
     (\<forall>v\<in>dom (fst sq) - set (snd sq). \<forall>w. Edge g v w \<longrightarrow> w \<in> dom (fst sq)) \<and>
     (snd sq = [] \<or>
      (\<exists>k q1 q2. snd sq = q1 @ q2 \<and> q1 \<noteq> [] \<and>
         (\<forall>x\<in>set q1. MinDist g x k) \<and> (\<forall>x\<in>set q2. MinDist g x (Suc k)) \<and>
         (\<forall>x m. m \<le> k \<and> FromGoal g m x \<longrightarrow> x \<in> dom (fst sq))))"

text \<open>The state reached from \<open>v\<close> by \<open>n\<close> lookups in the map.\<close>

primrec Follow :: "Solution \<Rightarrow> nat \<Rightarrow> State \<Rightarrow> State option" where
  "Follow solution 0 v = Some v"
| "Follow solution (Suc n) v =
     (case solution v of None \<Rightarrow> None | Some w \<Rightarrow> Follow solution n w)"

text \<open>The map that Solve returns on the graph of the small board.\<close>

definition ex_solution :: Solution where
  "ex_solution = [ex2 \<mapsto> ex2, ex1 \<mapsto> ex2]"

text \<open>
  A sequence of moves, each of a label in a direction, replayed from a state: every move
  must be feasible, and its result is normalised.
\<close>

fun Replay :: "Labels \<Rightarrow> State \<Rightarrow> (char \<times> Direction) list \<Rightarrow> State option" where
  "Replay labels s [] = Some s"
| "Replay labels s (m # ms) =
     (if fst m \<in> labels \<and> CanMove s (fst m) (snd m) (Indices s (fst m)) then
        (case Normalize (MoveBlock s (fst m) (snd m) (Indices s (fst m))) labels of
           Inl e \<Rightarrow> None
         | Inr t \<Rightarrow> Replay labels t ms)
      else None)"

text \<open>
  A solution of the board of \<^verbatim>\<open>main\<close> in 85 moves, in 5 parts, with the states between
  the parts and the solved state at the end.
\<close>

definition main_moves1 :: "(char \<times> Direction) list" where
  "main_moves1 =
    [(CHR ''9'', BOTTOM), (CHR ''5'', BOTTOM), (CHR ''4'', RIGHT), (CHR ''5'', BOTTOM),
     (CHR ''4'', RIGHT), (CHR ''6'', TOP), (CHR ''a'', LEFT), (CHR ''8'', BOTTOM),
     (CHR ''7'', RIGHT), (CHR ''4'', RIGHT), (CHR ''1'', BOTTOM), (CHR ''3'', BOTTOM),
     (CHR ''1'', LEFT), (CHR ''5'', TOP), (CHR ''3'', TOP), (CHR ''6'', LEFT), (CHR ''6'', TOP)]"

definition main_state1 :: State where
  "main_state1 = ''1123'' @ ''1143'' @ ''56  '' @ ''5678'' @ ''99a8''"

definition main_moves2 :: "(char \<times> Direction) list" where
  "main_moves2 =
    [(CHR ''7'', TOP), (CHR ''8'', TOP), (CHR ''a'', TOP), (CHR ''a'', RIGHT),
     (CHR ''5'', BOTTOM), (CHR ''a'', RIGHT), (CHR ''5'', BOTTOM), (CHR ''1'', BOTTOM),
     (CHR ''1'', LEFT), (CHR ''1'', LEFT), (CHR ''4'', TOP), (CHR ''2'', LEFT),
     (CHR ''5'', TOP), (CHR ''5'', TOP), (CHR ''5'', RIGHT), (CHR ''7'', TOP), (CHR ''6'', TOP)]"

definition main_state2 :: State where
  "main_state2 = ''1234'' @ ''5664'' @ ''5667'' @ '' 897'' @ '' 8aa''"

definition main_moves3 :: "(char \<times> Direction) list" where
  "main_moves3 =
    [(CHR ''8'', LEFT), (CHR ''9'', LEFT), (CHR ''9'', BOTTOM), (CHR ''6'', BOTTOM),
     (CHR ''2'', BOTTOM), (CHR ''2'', LEFT), (CHR ''3'', LEFT), (CHR ''7'', TOP),
     (CHR ''6'', TOP), (CHR ''7'', RIGHT), (CHR ''6'', BOTTOM), (CHR ''2'', BOTTOM),
     (CHR ''1'', RIGHT), (CHR ''4'', TOP), (CHR ''6'', BOTTOM), (CHR ''7'', TOP),
     (CHR ''9'', LEFT)]"

definition main_state3 :: State where
  "main_state3 = ''1234'' @ ''1534'' @ ''6 77'' @ ''6877'' @ ''9 aa''"

definition main_moves4 :: "(char \<times> Direction) list" where
  "main_moves4 =
    [(CHR ''8'', BOTTOM), (CHR ''7'', LEFT), (CHR ''4'', BOTTOM), (CHR ''5'', BOTTOM),
     (CHR ''3'', RIGHT), (CHR ''2'', RIGHT), (CHR ''4'', RIGHT), (CHR ''1'', RIGHT),
     (CHR ''5'', TOP), (CHR ''4'', TOP), (CHR ''6'', LEFT), (CHR ''5'', BOTTOM),
     (CHR ''3'', BOTTOM), (CHR ''6'', BOTTOM), (CHR ''4'', BOTTOM), (CHR ''3'', LEFT),
     (CHR ''6'', TOP)]"

definition main_state4 :: State where
  "main_state4 = ''123 '' @ ''1234'' @ ''5564'' @ ''557 '' @ ''89aa''"

definition main_moves5 :: "(char \<times> Direction) list" where
  "main_moves5 =
    [(CHR ''4'', TOP), (CHR ''6'', RIGHT), (CHR ''7'', TOP), (CHR ''a'', TOP),
     (CHR ''a'', RIGHT), (CHR ''9'', RIGHT), (CHR ''a'', RIGHT), (CHR ''9'', RIGHT),
     (CHR ''5'', BOTTOM), (CHR ''5'', LEFT), (CHR ''5'', LEFT), (CHR ''6'', LEFT),
     (CHR ''6'', LEFT), (CHR ''8'', TOP), (CHR ''9'', TOP), (CHR ''9'', RIGHT),
     (CHR ''8'', RIGHT)]"

definition main_state5 :: State where
  "main_state5 = ''1234'' @ ''1234'' @ ''5677'' @ '' 889'' @ '' 88a''"

text \<open>
  A board whose initial state is not normalised: two blocks of two rows, the upper one
  with the larger label.
\<close>

definition ex3 :: State where
  "ex3 = ''2222'' @ ''2222'' @ ''1111'' @ ''1111'' @ ''    ''"

section \<open>Normalize: idempotence, relabelling, confluence\<close>

lemma SwapLabel_same [simp]: "SwapLabel l l = id"
  by (auto simp: SwapLabel_def)

lemma SwapLabel_invol [simp]: "SwapLabel c l (SwapLabel c l x) = x"
  by (auto simp: SwapLabel_def)

lemma bij_SwapLabel: "bij (SwapLabel c l)"
  by (rule involuntory_imp_bij) simp

lemma Normalize_loop_blank:
  "Normalize_loop ls (blank # cs) = map_sum id ((#) blank) (Normalize_loop ls cs)"
  by simp

lemma Normalize_loop_seen:
  "c \<noteq> blank \<Longrightarrow> c < l \<Longrightarrow>
   Normalize_loop (l # ls') (c # cs) = map_sum id ((#) c) (Normalize_loop (l # ls') cs)"
  by simp

lemma Normalize_loop_new:
  "c \<noteq> blank \<Longrightarrow> \<not> c < l \<Longrightarrow>
   Normalize_loop (l # ls') (c # cs) =
     map_sum id ((#) l) (Normalize_next ls' (map (SwapLabel c l) cs))"
  by (simp add: Normalize_next_def Let_def)

lemma Normalize_loop_all_blank:
  "set cs \<subseteq> {blank} \<Longrightarrow> Normalize_loop ls cs = Inr cs"
  by (induction cs) auto

lemma Normalize_loop_idem:
  "blank \<notin> set ls \<Longrightarrow> Normalize_loop ls cs = Inr r \<Longrightarrow> Normalize_loop ls r = Inr r"
proof (induction "length cs" arbitrary: ls cs r)
  case 0
  then show ?case by simp
next
  case (Suc n)
  then obtain c cs' where cs: "cs = c # cs'" "length cs' = n"
    by (cases cs) auto
  show ?case
  proof (cases "c = blank")
    case True
    with Suc.prems cs obtain r' where "Normalize_loop ls cs' = Inr r'" "r = c # r'"
      by (cases "Normalize_loop ls cs'") auto
    with Suc.hyps(1)[of cs' ls r'] Suc.prems(1) cs True show ?thesis by simp
  next
    case False
    with Suc.prems cs obtain l ls' where ls: "ls = l # ls'"
      by (cases ls) auto
    show ?thesis
    proof (cases "c < l")
      case True
      with Suc.prems cs ls False obtain r' where "Normalize_loop ls cs' = Inr r'" "r = c # r'"
        by (cases "Normalize_loop ls cs'") auto
      with Suc.hyps(1)[of cs' ls r'] Suc.prems(1) cs True False ls show ?thesis by simp
    next
      case nless: False
      let ?cs = "map (SwapLabel c l) cs'"
      have step: "map_sum id ((#) l) (Normalize_next ls' ?cs) = Inr r"
        using Suc.prems cs ls False nless Normalize_loop_new[of c l ls' cs'] by simp
      have lb: "l \<noteq> blank" "blank \<notin> set ls'" using Suc.prems ls by auto
      show ?thesis
      proof (cases "ls' = []")
        case True
        with step have "r = l # ?cs" by (auto simp: Normalize_next_def)
        then show ?thesis using ls True lb by simp
      next
        case False
        with step obtain r' where r': "Normalize_loop ls' ?cs = Inr r'" "r = l # r'"
          by (cases "Normalize_loop ls' ?cs") (auto simp: Normalize_next_def)
        have "Normalize_loop ls' r' = Inr r'"
          using Suc.hyps(1)[of ?cs ls' r'] cs r' lb by simp
        then show ?thesis using r' ls False lb by simp
      qed
    qed
  qed
qed

lemma cells_ok_tail: "cells_ok ls (c # cs) \<Longrightarrow> cells_ok ls cs"
  by (simp add: cells_ok_def)

lemma sorted_head_least: "sorted_wrt (<) (l # ls') \<Longrightarrow> x \<in> set (l # ls') \<Longrightarrow> \<not> x < (l::char)"
  by (auto simp: not_less dest: less_imp_le)

lemma cells_ok_swap:
  assumes "sorted_wrt (<) (l # ls')" "blank \<notin> set (l # ls')" "c \<in> set (l # ls')"
    and "cells_ok (l # ls') cs"
  shows "cells_ok ls' (map (SwapLabel c l) cs)"
  unfolding cells_ok_def
proof
  fix y assume "y \<in> set (map (SwapLabel c l) cs)"
  then obtain x where x: "x \<in> set cs" "y = SwapLabel c l x" by auto
  from assms(4) x(1) consider "x = blank" | "x \<in> set (l # ls')" | "\<forall>k\<in>set (l # ls'). x < k"
    by (auto simp: cells_ok_def)
  then show "y = blank \<or> y \<in> set ls' \<or> (\<forall>k\<in>set ls'. y < k)"
  proof cases
    case 1
    then show ?thesis using assms(2,3) x(2) by (auto simp: SwapLabel_def)
  next
    case 2
    then have "y \<in> set (l # ls')" using assms(3) x(2) by (auto simp: SwapLabel_def)
    then show ?thesis using assms(1) by auto
  next
    case 3
    then have "x \<noteq> c" "x \<noteq> l" using assms(3) by auto
    then show ?thesis using 3 x(2) by (auto simp: SwapLabel_def)
  qed
qed

lemma cell_new_in_labels:
  assumes "cells_ok (l # ls') (c # cs)" "c \<noteq> blank" "\<not> c < l"
  shows "c \<in> set (l # ls')"
  using assms by (auto simp: cells_ok_def)

lemma Normalize_loop_relabel:
  assumes "ls \<noteq> []" "sorted_wrt (<) ls" "blank \<notin> set ls" "cells_ok ls cs"
  shows "\<exists>\<pi>. bij \<pi> \<and> (\<forall>x. x \<notin> set ls \<longrightarrow> \<pi> x = x) \<and> Normalize_loop ls cs = Inr (map \<pi> cs)"
  using assms
proof (induction "length cs" arbitrary: ls cs)
  case 0
  then show ?case by (auto intro: exI[of _ id])
next
  case (Suc n)
  then obtain c cs' where cs: "cs = c # cs'" "length cs' = n"
    by (cases cs) auto
  from Suc.prems obtain l ls' where ls: "ls = l # ls'" by (cases ls) auto
  have ok': "cells_ok ls cs'" using Suc.prems(4) cs cells_ok_tail by blast
  show ?case
  proof (cases "c = blank \<or> c < l")
    case True
    from Suc.hyps(1)[of cs' ls] cs Suc.prems ok'
    obtain \<pi> where p: "bij \<pi>" "\<forall>x. x \<notin> set ls \<longrightarrow> \<pi> x = x" "Normalize_loop ls cs' = Inr (map \<pi> cs')"
      by auto
    have "c \<notin> set ls" using True Suc.prems(2,3) ls sorted_head_least[of l ls' c] by auto
    then have "\<pi> c = c" using p(2) by simp
    then have "Normalize_loop ls cs = Inr (map \<pi> cs)"
      using True cs ls p(3) by auto
    then show ?thesis using p by blast
  next
    case False
    then have c: "c \<noteq> blank" "\<not> c < l" by auto
    have cin: "c \<in> set (l # ls')" using cell_new_in_labels Suc.prems(4) cs ls c by blast
    let ?cs = "map (SwapLabel c l) cs'"
    have ok2: "cells_ok ls' ?cs"
      using cells_ok_swap[of l ls' c cs'] Suc.prems ls cin ok' by simp
    have step: "Normalize_loop ls cs = map_sum id ((#) l) (Normalize_next ls' ?cs)"
      using cs ls c Normalize_loop_new by simp
    have "\<exists>\<pi>'. bij \<pi>' \<and> (\<forall>x. x \<notin> set ls' \<longrightarrow> \<pi>' x = x) \<and> Normalize_next ls' ?cs = Inr (map \<pi>' ?cs)"
    proof (cases "ls' = []")
      case True
      then show ?thesis by (auto simp: Normalize_next_def intro: exI[of _ id])
    next
      case False
      then show ?thesis
        using Suc.hyps(1)[of ?cs ls'] cs Suc.prems(2,3) ls ok2 by (auto simp: Normalize_next_def)
    qed
    then obtain \<pi>' where p: "bij \<pi>'" "\<forall>x. x \<notin> set ls' \<longrightarrow> \<pi>' x = x"
      "Normalize_next ls' ?cs = Inr (map \<pi>' ?cs)" by blast
    let ?p = "\<pi>' \<circ> SwapLabel c l"
    have "l \<notin> set ls'" using Suc.prems(2) ls by auto
    then have "?p c = l" using p(2) by (simp add: SwapLabel_def)
    then have 1: "Normalize_loop ls cs = Inr (map ?p cs)"
      using step p(3) cs by simp
    have 2: "bij ?p" using p(1) bij_SwapLabel by (rule bij_comp[rotated])
    have 3: "\<forall>x. x \<notin> set ls \<longrightarrow> ?p x = x"
      using p(2) cin ls by (auto simp: SwapLabel_def)
    from 1 2 3 show ?thesis by blast
  qed
qed

lemma bij_fix_maps_in:
  assumes "bij \<sigma>" "\<forall>x. x \<notin> A \<longrightarrow> \<sigma> x = x" "c \<in> A"
  shows "\<sigma> c \<in> A"
proof (rule ccontr)
  assume "\<sigma> c \<notin> A"
  then have "\<sigma> (\<sigma> c) = \<sigma> c" using assms(2) by simp
  then have "\<sigma> c = c" using assms(1) by (meson bij_is_inj injD)
  then show False using \<open>\<sigma> c \<notin> A\<close> assms(3) by simp
qed

lemma Normalize_loop_simulation:
  assumes "ls \<noteq> []" "sorted_wrt (<) ls" "blank \<notin> set ls" "cells_ok ls cs"
    and "bij \<sigma>" "\<forall>x. x \<notin> set ls \<longrightarrow> \<sigma> x = x"
  shows "Normalize_loop ls (map \<sigma> cs) = Normalize_loop ls cs"
  using assms
proof (induction "length cs" arbitrary: ls cs \<sigma>)
  case 0
  then show ?case by simp
next
  case (Suc n)
  then obtain c cs' where cs: "cs = c # cs'" "length cs' = n"
    by (cases cs) auto
  from Suc.prems obtain l ls' where ls: "ls = l # ls'" by (cases ls) auto
  have ok': "cells_ok ls cs'" using Suc.prems(4) cs cells_ok_tail by blast
  show ?case
  proof (cases "c = blank \<or> c < l")
    case True
    have "c \<notin> set ls" using True Suc.prems(2,3) ls sorted_head_least[of l ls' c] by auto
    then have "\<sigma> c = c" using Suc.prems(6) by simp
    moreover have "Normalize_loop ls (map \<sigma> cs') = Normalize_loop ls cs'"
      using Suc.hyps(1)[of cs' ls \<sigma>] cs Suc.prems ok' by simp
    ultimately show ?thesis using True cs ls by auto
  next
    case False
    then have c: "c \<noteq> blank" "\<not> c < l" by auto
    have cin: "c \<in> set (l # ls')" using cell_new_in_labels Suc.prems(4) cs ls c by blast
    have scin: "\<sigma> c \<in> set (l # ls')"
      using bij_fix_maps_in[OF Suc.prems(5) Suc.prems(6)] cin ls by simp
    then have sc: "\<sigma> c \<noteq> blank" "\<not> \<sigma> c < l"
      using Suc.prems(2,3) ls sorted_head_least[of l ls' "\<sigma> c"] by auto
    let ?cs = "map (SwapLabel c l) cs'"
    let ?s = "SwapLabel (\<sigma> c) l \<circ> \<sigma> \<circ> SwapLabel c l"
    have ok2: "cells_ok ls' ?cs"
      using cells_ok_swap[of l ls' c cs'] Suc.prems ls cin ok' by simp
    have lhs: "Normalize_loop ls (map \<sigma> cs) =
        map_sum id ((#) l) (Normalize_next ls' (map (SwapLabel (\<sigma> c) l) (map \<sigma> cs')))"
      using cs ls sc Normalize_loop_new by simp
    have rhs: "Normalize_loop ls cs = map_sum id ((#) l) (Normalize_next ls' ?cs)"
      using cs ls c Normalize_loop_new by simp
    have eq: "map (SwapLabel (\<sigma> c) l) (map \<sigma> cs') = map ?s ?cs"
      by simp
    have b: "bij ?s"
      using bij_SwapLabel Suc.prems(5) by (intro bij_comp)
    have "l \<notin> set ls'" using Suc.prems(2) ls by auto
    have f: "\<forall>x. x \<notin> set ls' \<longrightarrow> ?s x = x"
    proof (intro allI impI)
      fix x assume x: "x \<notin> set ls'"
      show "?s x = x"
      proof (cases "x = l")
        case True
        then show ?thesis by (simp add: SwapLabel_def)
      next
        case False
        then have xn: "x \<notin> set ls" using x ls by simp
        then have "x \<noteq> c" "x \<noteq> \<sigma> c" using cin scin ls by auto
        then show ?thesis using False xn Suc.prems(6) by (simp add: SwapLabel_def)
      qed
    qed
    have "Normalize_next ls' (map ?s ?cs) = Normalize_next ls' ?cs"
    proof (cases "ls' = []")
      case True
      then have "?s = id" using f by auto
      then show ?thesis by simp
    next
      case False
      then show ?thesis
        using Suc.hyps(1)[of ?cs ls' ?s] cs Suc.prems(2,3) ls ok2 b f
        by (simp add: Normalize_next_def)
    qed
    then show ?thesis by (simp only: lhs rhs eq)
  qed
qed

lemma GatherLabels_fold:
  "fold (\<lambda>c labels. if c \<noteq> blank then insert c labels else labels) s A = A \<union> (set s - {blank})"
  by (induction s arbitrary: A) auto

lemma GatherLabels_eq: "GatherLabels s = set s - {blank}"
  by (simp add: GatherLabels_def GatherLabels_fold)

lemma sorted_labels:
  fixes labels :: Labels
  shows "set (sorted_list_of_set labels) = labels" "sorted_wrt (<) (sorted_list_of_set labels)"
  by (simp_all add: strict_sorted_iff)

lemma cells_ok_labels: "GatherLabels s \<subseteq> labels \<Longrightarrow> cells_ok (sorted_list_of_set labels) s"
  by (auto simp: cells_ok_def GatherLabels_eq)

lemma Normalize_relabel:
  assumes "GatherLabels s \<subseteq> labels" "blank \<notin> labels"
  shows "\<exists>\<pi>. bij \<pi> \<and> (\<forall>x. x \<notin> labels \<longrightarrow> \<pi> x = x) \<and> Normalize s labels = Inr (map \<pi> s)"
proof (cases "sorted_list_of_set labels = []")
  case True
  then have "labels = {}" using sorted_labels(1)[of labels] by simp
  then have "set s \<subseteq> {blank}" using assms(1) by (auto simp: GatherLabels_eq)
  then have "Normalize s labels = Inr (map id s)"
    by (simp add: Normalize_def Normalize_loop_all_blank)
  then show ?thesis by (intro exI[of _ id]) simp
next
  case False
  then show ?thesis
    using Normalize_loop_relabel[of "sorted_list_of_set labels" s] assms cells_ok_labels
    by (simp add: Normalize_def sorted_labels)
qed

lemma Normalize_idem:
  "blank \<notin> labels \<Longrightarrow> Normalize s labels = Inr r \<Longrightarrow> Normalize r labels = Inr r"
  using Normalize_loop_idem[of "sorted_list_of_set labels" s r]
  by (simp add: Normalize_def sorted_labels)

lemma Normalize_map_bij:
  assumes "GatherLabels s \<subseteq> labels" "blank \<notin> labels" "bij \<sigma>" "\<forall>x. x \<notin> labels \<longrightarrow> \<sigma> x = x"
  shows "Normalize (map \<sigma> s) labels = Normalize s labels"
proof (cases "sorted_list_of_set labels = []")
  case True
  then have "labels = {}" using sorted_labels(1)[of labels] by simp
  then have "\<sigma> = id" using assms(4) by auto
  then show ?thesis by simp
next
  case False
  then show ?thesis
    using Normalize_loop_simulation[of "sorted_list_of_set labels" s \<sigma>] assms cells_ok_labels
    by (simp add: Normalize_def sorted_labels)
qed

lemma Normalize_Relabel:
  assumes "GatherLabels s \<subseteq> labels" "blank \<notin> labels"
    and "bij_betw pi (GatherLabels s) (GatherLabels s)"
  shows "Normalize (Relabel pi s) labels = Normalize s labels
         \<and> (\<exists>t. Normalize s labels = Inr t)"
proof -
  let ?L = "GatherLabels s"
  let ?\<sigma> = "\<lambda>x. if x \<in> ?L then pi x else x"
  have inj: "inj ?\<sigma>"
  proof (rule injI)
    fix x y assume e: "?\<sigma> x = ?\<sigma> y"
    have im: "\<And>z. z \<in> ?L \<Longrightarrow> pi z \<in> ?L" using assms(3) by (auto simp: bij_betw_def)
    show "x = y"
    proof (cases "x \<in> ?L"; cases "y \<in> ?L")
      assume "x \<in> ?L" "y \<in> ?L"
      then show ?thesis using e assms(3) by (auto simp: bij_betw_def inj_on_def)
    qed (use e im in auto)
  qed
  have "surj ?\<sigma>"
  proof (rule surjI)
    fix y
    show "?\<sigma> (if y \<in> ?L then the_inv_into ?L pi y else y) = y"
      using assms(3) by (auto simp: f_the_inv_into_f_bij_betw the_inv_into_into bij_betw_def)
  qed
  with inj have b: "bij ?\<sigma>" by (simp add: bij_def)
  have f: "\<forall>x. x \<notin> labels \<longrightarrow> ?\<sigma> x = x" using assms(1) by auto
  have "Relabel pi s = map ?\<sigma> s"
    by (auto simp: Relabel_def GatherLabels_eq)
  then have "Normalize (Relabel pi s) labels = Normalize s labels"
    using Normalize_map_bij[OF assms(1,2) b f] by simp
  moreover have "\<exists>t. Normalize s labels = Inr t"
    using Normalize_relabel[OF assms(1,2)] by blast
  ultimately show ?thesis by simp
qed

text \<open>
  Claim C1 (canonicalization confluence). Let \<open>pi\<close> be a permutation of the labels of a
  state \<open>s\<close>. Then Normalize, with the labels gathered from \<open>s\<close>, returns the same state on
  \<open>s\<close> and on \<open>s\<close> relabelled by \<open>pi\<close>, and it does return one (the cursor is never
  dereferenced at the end). The same holds with every label set that contains the labels
  of \<open>s\<close> and not the empty marker, as the label set of a run does.
\<close>

theorem Normalize_confluence:
  assumes "bij_betw pi (GatherLabels s) (GatherLabels s)"
  shows "Normalize (Relabel pi s) (GatherLabels s) = Normalize s (GatherLabels s) \<and>
         (\<exists>t. Normalize s (GatherLabels s) = Inr t) \<and>
         (\<forall>labels. GatherLabels s \<subseteq> labels \<and> blank \<notin> labels \<longrightarrow>
            Normalize (Relabel pi s) labels = Normalize s labels \<and>
            (\<exists>t. Normalize s labels = Inr t))"
proof -
  have bl: "blank \<notin> GatherLabels s" by (simp add: GatherLabels_eq)
  have 1: "Normalize (Relabel pi s) (GatherLabels s) = Normalize s (GatherLabels s) \<and>
         (\<exists>t. Normalize s (GatherLabels s) = Inr t)"
    using Normalize_Relabel[OF subset_refl bl assms] .
  have 2: "Normalize (Relabel pi s) labels = Normalize s labels \<and>
            (\<exists>t. Normalize s labels = Inr t)"
    if "GatherLabels s \<subseteq> labels \<and> blank \<notin> labels" for labels
    using Normalize_Relabel[of s labels pi] that assms by blast
  from 1 2 show ?thesis by blast
qed

theorem Normalize_confluence_witness:
  "bij_betw swap12 (GatherLabels ''2211 2 1 333         '') (GatherLabels ''2211 2 1 333         '')
   \<and> Relabel swap12 ''2211 2 1 333         '' = ''1122 1 2 333         ''
   \<and> Normalize ''1122 1 2 333         '' (GatherLabels ''2211 2 1 333         '')
        = Inr ''1122 1 2 333         ''
   \<and> Normalize ''2211 2 1 333         '' (GatherLabels ''2211 2 1 333         '')
        = Inr ''1122 1 2 333         ''
   \<and> GatherLabels ''2211 2 1 333         '' \<subseteq> set ''1234'' \<and> blank \<notin> set ''1234''
   \<and> Normalize ''2211 2 1 333         '' (set ''1234'') = Inr ''1122 1 2 333         ''"
proof -
  let ?s = "''2211 2 1 333         ''"
  have g: "GatherLabels ?s = set ''123''"
    by (auto simp: GatherLabels_eq)
  have 1: "bij_betw swap12 (GatherLabels ?s) (GatherLabels ?s)"
    unfolding g by (auto simp: bij_betw_def inj_on_def swap12_def)
  have 2: "GatherLabels ?s \<subseteq> set ''1234'' \<and> blank \<notin> set ''1234''" unfolding g by simp
  have 3: "Relabel swap12 ?s = ''1122 1 2 333         ''"
    by (simp add: Relabel_def swap12_def)
  have 4: "Normalize ''1122 1 2 333         '' (set ''123'') = Inr ''1122 1 2 333         ''"
    by (simp add: Normalize_def sorted_list_of_set_sort_remdups)
  have 5: "Normalize ''1122 1 2 333         '' (set ''1234'') = Inr ''1122 1 2 333         ''"
    by (simp add: Normalize_def sorted_list_of_set_sort_remdups)
  note T = Normalize_confluence[OF 1]
  from T[THEN conjunct1] 3 4 have 6: "Normalize ?s (GatherLabels ?s) = Inr ''1122 1 2 333         ''"
    by (simp only: g)
  from T[THEN conjunct2, THEN conjunct2, rule_format, OF 2] 3 5
  have 7: "Normalize ?s (set ''1234'') = Inr ''1122 1 2 333         ''"
    by (simp only:)
  from 1 2 3 4 6 7 show ?thesis by (simp only: g simp_thms)
qed

section \<open>The move relation\<close>

lemma CanMove_iff:
  "CanMove s l d is \<longleftrightarrow> (\<forall>i\<in>set is. \<not> IsEdge d i \<and> (s ! Move d i = blank \<or> s ! Move d i = l))"
  by (induction "is") (auto simp: Let_def)

lemma set_Indices: "set (Indices s l) = {i. i < length s \<and> s ! i = l}"
  by (auto simp: Indices_def)

lemma wrap_sub:
  fixes i k m :: nat
  assumes "k \<le> i" "i < m" "k \<le> m"
  shows "(i + (m - k)) mod m = i - k"
proof -
  have "i + (m - k) = (i - k) + m" using assms by arith
  then have "(i + (m - k)) mod m = (i - k) mod m" by (metis mod_add_self2)
  then show ?thesis using assms by simp
qed

lemma Move_inside:
  assumes "i < 20" "\<not> IsEdge d i"
  shows "Move d i = (case d of LEFT \<Rightarrow> i - 1 | RIGHT \<Rightarrow> i + 1 | TOP \<Rightarrow> i - 4 | BOTTOM \<Rightarrow> i + 4)
     \<and> Move d i < 20"
proof (cases d)
  case LEFT
  with assms have "1 \<le> i" by (cases i) auto
  moreover have "i < size_t_mod" "1 \<le> size_t_mod" using assms by (simp_all add: size_t_mod_def)
  ultimately have "(i + (size_t_mod - 1)) mod size_t_mod = i - 1" by (rule wrap_sub)
  then show ?thesis using LEFT assms by simp
next
  case RIGHT
  with assms have "i \<noteq> 19" by auto
  then show ?thesis using RIGHT assms by (simp add: size_t_mod_def)
next
  case TOP
  with assms have "4 \<le> i" by auto
  moreover have "i < size_t_mod" "4 \<le> size_t_mod" using assms by (simp_all add: size_t_mod_def)
  ultimately have "(i + (size_t_mod - 4)) mod size_t_mod = i - 4" by (rule wrap_sub)
  then show ?thesis using TOP assms by simp
next
  case BOTTOM
  then show ?thesis using assms by (simp add: size_t_mod_def)
qed

lemma length_fold_update: "length (fold (\<lambda>i s. s[f i := v]) is s) = length s"
  by (induction "is" arbitrary: s) auto

lemma nth_fold_update:
  "j < length s \<Longrightarrow> fold (\<lambda>i s. s[f i := v]) is s ! j = (if j \<in> f ` set is then v else s ! j)"
  by (induction "is" arbitrary: s) (auto simp: nth_list_update)

lemma length_MoveBlock: "length (MoveBlock s l d is) = length s"
  by (simp add: MoveBlock_def length_fold_update)

lemma nth_MoveBlock:
  "j < length s \<Longrightarrow> MoveBlock s l d is ! j =
     (if j \<in> Move d ` set is then l else if j \<in> set is then blank else s ! j)"
  unfolding MoveBlock_def
  using nth_fold_update[of j _ "Move d" l "is"] nth_fold_update[of j s "\<lambda>i. i" blank "is"]
  by (simp add: length_fold_update)

lemma Move_image_Indices:
  "(j \<in> Move d ` set (Indices s l)) = (\<exists>i<length s. s ! i = l \<and> Move d i = j)"
  by (auto simp: set_Indices)

section \<open>GenerateGraph: invariant, termination, closure, symmetry\<close>

lemma absorb_empty: "current \<in> dom (fst gs) \<Longrightarrow> absorb current {} gs = gs"
  by (cases gs) (auto simp: absorb_def fun_upd_idem_iff)

lemma absorb_absorb:
  "current \<in> dom (fst gs) \<Longrightarrow> absorb current T2 (absorb current T1 gs) = absorb current (T1 \<union> T2) gs"
  by (cases gs) (auto simp: absorb_def)

lemma dom_absorb: "current \<in> dom (fst gs) \<Longrightarrow> dom (fst (absorb current T gs)) = dom (fst gs)"
  by (auto simp: absorb_def)

lemma foldE_absorb:
  assumes "\<And>x gs. x \<in> set xs \<Longrightarrow> current \<in> dom (fst gs) \<Longrightarrow> f x gs = Inr (absorb current (T x) gs)"
    and "current \<in> dom (fst gs)"
  shows "foldE f xs gs = Inr (absorb current (\<Union>x\<in>set xs. T x) gs)"
  using assms
proof (induction xs arbitrary: gs)
  case Nil
  then show ?case by (simp add: absorb_empty)
next
  case (Cons x xs)
  have 1: "f x gs = Inr (absorb current (T x) gs)" using Cons.prems by simp
  have 2: "current \<in> dom (fst (absorb current (T x) gs))"
    using Cons.prems(2) by (simp add: dom_absorb)
  have "foldE f xs (absorb current (T x) gs) =
          Inr (absorb current (\<Union>x\<in>set xs. T x) (absorb current (T x) gs))"
    using Cons.IH[OF _ 2] Cons.prems(1) by simp
  then show ?case using 1 Cons.prems(2) by (simp add: absorb_absorb)
qed

lemma AddNeighbors_direction_absorb:
  assumes "current \<in> dom (fst gs)"
    and "Feasible current label d \<Longrightarrow> \<exists>t. Normalize (Slide current label d) labels = Inr t"
  shows "AddNeighbors_direction labels current label (Indices current label) d gs =
           Inr (absorb current {t. Feasible current label d \<and>
                                  Normalize (Slide current label d) labels = Inr t} gs)"
proof (cases "Feasible current label d")
  case False
  then show ?thesis using assms(1)
    by (simp add: AddNeighbors_direction_def Feasible_def absorb_empty)
next
  case True
  with assms(2) obtain t where t: "Normalize (Slide current label d) labels = Inr t" by blast
  then have "{t. Feasible current label d \<and> Normalize (Slide current label d) labels = Inr t} = {t}"
    using True by auto
  moreover have "AddNeighbors_direction labels current label (Indices current label) d gs
      = Inr (absorb current {t} gs)"
  proof -
    obtain g ws where gs: "gs = (g, ws)" by (cases gs)
    with assms(1) obtain N where N: "g current = Some N" by auto
    have d: "dom (g(current \<mapsto> insert t N)) = dom g" using N by auto
    have "AddNeighbors_direction labels current label (Indices current label) d gs
       = Inr (g(current \<mapsto> insert t N), if t \<in> dom g then ws else insert t ws)"
      using True t gs N d
      by (simp add: AddNeighbors_direction_def Feasible_def Slide_def InsertNeighbor_def Let_def)
    moreover have "absorb current {t} gs
       = (g(current \<mapsto> insert t N), if t \<in> dom g then ws else insert t ws)"
      using gs N by (auto simp: absorb_def)
    ultimately show ?thesis by simp
  qed
  ultimately show ?thesis by simp
qed

lemma set_directions: "set [LEFT, RIGHT, TOP, BOTTOM] = UNIV"
proof -
  have "d \<in> set [LEFT, RIGHT, TOP, BOTTOM]" for d by (cases d) auto
  then show ?thesis by blast
qed

lemma AddNeighbors_label_absorb:
  assumes "current \<in> dom (fst gs)"
    and "\<And>d. Feasible current label d \<Longrightarrow> \<exists>t. Normalize (Slide current label d) labels = Inr t"
  shows "AddNeighbors_label labels current label gs =
           Inr (absorb current {t. \<exists>d. Feasible current label d \<and>
                                  Normalize (Slide current label d) labels = Inr t} gs)"
proof -
  have "AddNeighbors_label labels current label gs =
     Inr (absorb current (\<Union>d\<in>set [LEFT, RIGHT, TOP, BOTTOM].
            {t. Feasible current label d \<and> Normalize (Slide current label d) labels = Inr t}) gs)"
    unfolding AddNeighbors_label_def
    by (rule foldE_absorb) (use assms AddNeighbors_direction_absorb in auto)
  moreover have "(\<Union>d\<in>set [LEFT, RIGHT, TOP, BOTTOM].
            {t. Feasible current label d \<and> Normalize (Slide current label d) labels = Inr t})
     = {t. \<exists>d. Feasible current label d \<and> Normalize (Slide current label d) labels = Inr t}"
    unfolding set_directions by auto
  ultimately show ?thesis by simp
qed

lemma AddNeighbors_absorb:
  assumes "finite (snd gs)" "snd gs \<noteq> {}" "Min (snd gs) \<notin> dom (fst gs)"
    and "\<And>label d. label \<in> labels \<Longrightarrow> Feasible (Min (snd gs)) label d \<Longrightarrow>
           \<exists>t. Normalize (Slide (Min (snd gs)) label d) labels = Inr t"
  shows "AddNeighbors gs labels =
           Inr ((fst gs)(Min (snd gs) \<mapsto> Successors labels (Min (snd gs))),
                (snd gs - {Min (snd gs)}) \<union>
                  (Successors labels (Min (snd gs)) - insert (Min (snd gs)) (dom (fst gs))))"
proof -
  let ?c = "Min (snd gs)"
  let ?gs0 = "((fst gs)(?c \<mapsto> {}), snd gs - {?c})"
  have c0: "?c \<in> dom (fst ?gs0)" by simp
  have "foldE (AddNeighbors_label labels ?c) (sorted_list_of_set labels) ?gs0 =
     Inr (absorb ?c (\<Union>label\<in>set (sorted_list_of_set labels).
            {t. \<exists>d. Feasible ?c label d \<and> Normalize (Slide ?c label d) labels = Inr t}) ?gs0)"
    by (rule foldE_absorb) (use assms(4) AddNeighbors_label_absorb in auto)
  moreover have "(\<Union>label\<in>set (sorted_list_of_set labels).
            {t. \<exists>d. Feasible ?c label d \<and> Normalize (Slide ?c label d) labels = Inr t})
        = Successors labels ?c"
    by (auto simp: Successors_def)
  ultimately have "foldE (AddNeighbors_label labels ?c) (sorted_list_of_set labels) ?gs0 =
     Inr (absorb ?c (Successors labels ?c) ?gs0)" by simp
  then show ?thesis using assms(3)
    by (simp add: AddNeighbors_def Let_def absorb_def)
qed

lemma set_fold_update: "set (fold (\<lambda>i s. s[f i := v]) is s) \<subseteq> insert v (set s)"
proof (induction "is" arbitrary: s)
  case Nil
  then show ?case by auto
next
  case (Cons i "is")
  have "set (s[f i := v]) \<subseteq> insert v (set s)" by (rule set_update_subset_insert)
  with Cons[of "s[f i := v]"] show ?case by auto
qed

lemma set_MoveBlock: "set (MoveBlock s l d is) \<subseteq> {blank, l} \<union> set s"
  unfolding MoveBlock_def
  using set_fold_update[of "Move d" l "is" "fold (\<lambda>i newstate. newstate[i := blank]) is s"]
    set_fold_update[of "\<lambda>i. i" blank "is" s]
  by auto

lemma GatherLabels_Slide:
  "GatherLabels s \<subseteq> labels \<Longrightarrow> label \<in> labels \<Longrightarrow> GatherLabels (Slide s label d) \<subseteq> labels"
  using set_MoveBlock[of s label d "Indices s label"]
  by (auto simp: GatherLabels_eq Slide_def)

lemma length_Slide: "length (Slide s label d) = length s"
  by (simp add: Slide_def length_MoveBlock)

lemma Normalize_wf:
  assumes "GatherLabels s \<subseteq> labels" "blank \<notin> labels" "length s = 20"
  shows "\<exists>t. Normalize s labels = Inr t \<and> wf_state labels t"
proof -
  from Normalize_relabel[OF assms(1,2)] obtain \<pi> where
    p: "bij \<pi>" "\<forall>x. x \<notin> labels \<longrightarrow> \<pi> x = x" "Normalize s labels = Inr (map \<pi> s)" by blast
  have "GatherLabels (map \<pi> s) \<subseteq> labels"
  proof
    fix y assume "y \<in> GatherLabels (map \<pi> s)"
    then obtain x where x: "x \<in> set s" "y = \<pi> x" "y \<noteq> blank" by (auto simp: GatherLabels_eq)
    then have "x \<noteq> blank" using p(2) assms(2) by auto
    then have "x \<in> labels" using x(1) assms(1) by (auto simp: GatherLabels_eq)
    then show "y \<in> labels" using bij_fix_maps_in[OF p(1,2)] x(2) by simp
  qed
  moreover have "Normalize (map \<pi> s) labels = Inr (map \<pi> s)"
    using Normalize_idem[OF assms(2) p(3)] .
  ultimately show ?thesis using p(3) assms(3) by (simp add: wf_state_def)
qed

lemma Slide_Normalize_wf:
  assumes "wf_state labels s" "blank \<notin> labels" "label \<in> labels"
  shows "\<exists>t. Normalize (Slide s label d) labels = Inr t \<and> wf_state labels t"
  using assms Normalize_wf[of "Slide s label d" labels] GatherLabels_Slide[of s labels label d]
  by (simp add: wf_state_def length_Slide)

lemma Successors_wf:
  assumes "wf_state labels s" "blank \<notin> labels" "t \<in> Successors labels s"
  shows "wf_state labels t"
proof -
  from assms(3) obtain label d where
    "label \<in> labels" "Normalize (Slide s label d) labels = Inr t"
    by (auto simp: Successors_def)
  then show ?thesis using Slide_Normalize_wf[OF assms(1,2), of label d] by auto
qed

lemma Reachable_wf:
  assumes "Reachable labels init s" "wf_state labels init" "blank \<notin> labels"
  shows "wf_state labels s"
  using assms by (induction rule: Reachable.induct) (auto intro: Successors_wf)

lemma finite_Successors: "finite (Successors labels s)"
proof -
  have "Successors labels s \<subseteq>
      (\<lambda>p. projr (Normalize (Slide s (fst p) (snd p)) labels)) ` (labels \<times> set [LEFT, RIGHT, TOP, BOTTOM])"
  proof
    fix t assume "t \<in> Successors labels s"
    then obtain l d where "l \<in> labels" "Normalize (Slide s l d) labels = Inr t"
      by (auto simp: Successors_def)
    then have "(l, d) \<in> labels \<times> set [LEFT, RIGHT, TOP, BOTTOM]"
        "t = projr (Normalize (Slide s (fst (l, d)) (snd (l, d))) labels)"
      unfolding set_directions by simp_all
    then show "t \<in> (\<lambda>p. projr (Normalize (Slide s (fst p) (snd p)) labels)) ` (labels \<times> set [LEFT, RIGHT, TOP, BOTTOM])"
      by (rule rev_image_eqI)
  qed
  then show ?thesis by (rule finite_subset) simp
qed

lemma Inv_first: "Inv labels init (Map.empty, {init})"
  by (simp add: Inv_def Reachable.start)

lemma Inv_step:
  assumes inv: "Inv labels init gs" and ne: "snd gs \<noteq> {}"
    and wf: "wf_state labels init" and bl: "blank \<notin> labels"
  shows "\<exists>gs'. AddNeighbors gs labels = Inr gs' \<and> Inv labels init gs' \<and>
           Min (snd gs) \<notin> dom (fst gs) \<and>
           dom (fst gs') = insert (Min (snd gs)) (dom (fst gs))"
proof -
  let ?c = "Min (snd gs)"
  let ?S = "Successors labels ?c"
  let ?g = "(fst gs)(?c \<mapsto> ?S)"
  let ?ws = "(snd gs - {?c}) \<union> (?S - insert ?c (dom (fst gs)))"
  have fin: "finite (snd gs)" using inv by (simp add: Inv_def)
  then have cin: "?c \<in> snd gs" using ne by simp
  then have cnot: "?c \<notin> dom (fst gs)" using inv by (auto simp: Inv_def)
  have "Reachable labels init ?c" using inv cin by (auto simp: Inv_def)
  then have cwf: "wf_state labels ?c" using Reachable_wf wf bl by blast
  have "\<exists>t. Normalize (Slide ?c label d) labels = Inr t"
    if "label \<in> labels" for label d
    using Slide_Normalize_wf[OF cwf bl that, of d] by blast
  then have add: "AddNeighbors gs labels = Inr (?g, ?ws)"
    by (intro AddNeighbors_absorb[OF fin ne cnot])
  have 1: "finite ?ws" using fin finite_Successors by simp
  have 2: "dom ?g \<inter> ?ws = {}" using inv by (auto simp: Inv_def)
  have 3: "\<forall>v\<in>dom ?g. ?g v = Some (Successors labels v) \<and> Successors labels v \<subseteq> dom ?g \<union> ?ws"
  proof
    fix v assume v: "v \<in> dom ?g"
    show "?g v = Some (Successors labels v) \<and> Successors labels v \<subseteq> dom ?g \<union> ?ws"
    proof (cases "v = ?c")
      case True
      then show ?thesis by auto
    next
      case False
      then have "v \<in> dom (fst gs)" using v by auto
      then have "fst gs v = Some (Successors labels v)"
          "Successors labels v \<subseteq> dom (fst gs) \<union> snd gs"
        using inv by (auto simp: Inv_def)
      then show ?thesis using False by auto
    qed
  qed
  have 4: "\<forall>v\<in>dom ?g \<union> ?ws. Reachable labels init v"
  proof
    fix v assume "v \<in> dom ?g \<union> ?ws"
    then consider "v \<in> dom (fst gs) \<union> snd gs" | "v \<in> ?S" using cin by auto
    then show "Reachable labels init v"
    proof cases
      case 1
      then show ?thesis using inv by (auto simp: Inv_def)
    next
      case 2
      then show ?thesis using \<open>Reachable labels init ?c\<close> Reachable.step by blast
    qed
  qed
  have 5: "init \<in> dom ?g \<union> ?ws" using inv by (auto simp: Inv_def)
  have "Inv labels init (?g, ?ws)"
    unfolding Inv_def fst_conv snd_conv using 1 2 3 4 5 by blast
  then show ?thesis using add cnot by auto
qed

lemma Run_Inv:
  assumes "Run labels init gs" "wf_state labels init" "blank \<notin> labels"
  shows "Inv labels init gs"
  using assms
proof (induction rule: Run.induct)
  case initial
  show ?case by (rule Inv_first)
next
  case (explore gs gs')
  then show ?case using Inv_step[of labels init gs] by auto
qed

lemma finite_states: "finite {v :: State. length v = 20}"
  using finite_lists_length_eq[of "UNIV :: char set" 20] by simp

lemma GenerateGraph_loop_total:
  assumes "wf_state labels init" "blank \<notin> labels"
  shows "Run labels init gs \<Longrightarrow>
          \<exists>g. GenerateGraph_loop labels gs = Some (Inr g) \<and> Run labels init (g, {})"
proof (induction "card ({v :: State. length v = 20} - dom (fst gs))" arbitrary: gs rule: less_induct)
  case less
  show ?case
  proof (cases "snd gs = {}")
    case True
    then have "gs = (fst gs, {})" by (cases gs) simp
    then have "Run labels init (fst gs, {})" using less.prems by simp
    moreover have "GenerateGraph_loop labels gs = Some (Inr (fst gs))"
      using True by (subst GenerateGraph_loop.simps) simp
    ultimately show ?thesis by blast
  next
    case False
    have inv: "Inv labels init gs" using Run_Inv[OF less.prems assms] .
    from Inv_step[OF inv False assms] obtain gs' where
      gs': "AddNeighbors gs labels = Inr gs'" "Inv labels init gs'"
        "Min (snd gs) \<notin> dom (fst gs)" "dom (fst gs') = insert (Min (snd gs)) (dom (fst gs))"
      by blast
    have run': "Run labels init gs'" using Run.explore[OF less.prems False gs'(1)] .
    have "Min (snd gs) \<in> snd gs" using inv False by (simp add: Inv_def)
    then have "Reachable labels init (Min (snd gs))" using inv by (auto simp: Inv_def)
    then have "length (Min (snd gs)) = 20" using Reachable_wf assms by (auto simp: wf_state_def)
    then have "{v :: State. length v = 20} - dom (fst gs') \<subset> {v. length v = 20} - dom (fst gs)"
      using gs'(3,4) by auto
    then have "card ({v :: State. length v = 20} - dom (fst gs')) < card ({v. length v = 20} - dom (fst gs))"
      using finite_states by (intro psubset_card_mono) auto
    from less.hyps[OF this run'] obtain g where
      "GenerateGraph_loop labels gs' = Some (Inr g)" "Run labels init (g, {})" by blast
    then show ?thesis using False gs'(1)
      by (subst GenerateGraph_loop.simps) simp
  qed
qed

lemma ex_length: "length ex1 = 20" "length ex2 = 20"
  by (simp_all add: ex1_def ex2_def)

lemma ex_neq: "ex1 \<noteq> ex2" "ex2 \<noteq> ex1" "ex2 < ex1"
  by (simp_all add: ex1_def ex2_def)

lemma ex_labels: "GatherLabels ex1 = {CHR ''a''}" "GatherLabels ex2 = {CHR ''a''}"
  by (auto simp: GatherLabels_eq ex1_def ex2_def)

lemma ex_Normalize: "Normalize ex1 {CHR ''a''} = Inr ex1" "Normalize ex2 {CHR ''a''} = Inr ex2"
  by (simp_all add: Normalize_def ex1_def ex2_def)

lemma ex_Indices:
  "Indices ex1 (CHR ''a'') = [0, 1, 2, 3, 4, 5, 6, 7, 8, 9, 10, 11, 12, 13, 14, 15]"
  "Indices ex2 (CHR ''a'') = [4, 5, 6, 7, 8, 9, 10, 11, 12, 13, 14, 15, 16, 17, 18, 19]"
  by (simp_all add: Indices_def ex1_def ex2_def upt_rec)

lemma ex_CanMove1:
  "CanMove ex1 (CHR ''a'') d (Indices ex1 (CHR ''a'')) = (d = BOTTOM)"
  unfolding ex_Indices by (cases d) (simp_all add: ex1_def size_t_mod_def)

lemma ex_CanMove2:
  "CanMove ex2 (CHR ''a'') d (Indices ex2 (CHR ''a'')) = (d = TOP)"
  unfolding ex_Indices by (cases d) (simp_all add: ex2_def size_t_mod_def)

lemma ex_MoveBlock:
  "MoveBlock ex1 (CHR ''a'') BOTTOM (Indices ex1 (CHR ''a'')) = ex2"
  "MoveBlock ex2 (CHR ''a'') TOP (Indices ex2 (CHR ''a'')) = ex1"
  unfolding ex_Indices by (simp_all add: ex1_def ex2_def MoveBlock_def size_t_mod_def)

lemma ex_Successors: "Successors {CHR ''a''} ex1 = {ex2}" "Successors {CHR ''a''} ex2 = {ex1}"
  by (auto simp: Successors_def Feasible_def Slide_def ex_CanMove1 ex_CanMove2 ex_MoveBlock ex_Normalize)

lemma ex_AddNeighbors1:
  "AddNeighbors (Map.empty, {ex1}) {CHR ''a''} = Inr ([ex1 \<mapsto> {ex2}], {ex2})"
proof -
  have "\<exists>t. Normalize (Slide ex1 label d) {CHR ''a''} = Inr t"
    if "label \<in> {CHR ''a''}" "Feasible ex1 label d" for label d
    using that by (simp add: Feasible_def Slide_def ex_CanMove1 ex_MoveBlock ex_Normalize)
  then show ?thesis
    using AddNeighbors_absorb[of "(Map.empty, {ex1})" "{CHR ''a''}"]
    by (simp add: ex_Successors ex_neq)
qed

lemma ex_AddNeighbors2:
  "AddNeighbors ([ex1 \<mapsto> {ex2}], {ex2}) {CHR ''a''} = Inr (ex_graph, {})"
proof -
  have "\<exists>t. Normalize (Slide ex2 label d) {CHR ''a''} = Inr t"
    if "label \<in> {CHR ''a''}" "Feasible ex2 label d" for label d
    using that by (simp add: Feasible_def Slide_def ex_CanMove2 ex_MoveBlock ex_Normalize)
  then show ?thesis
    using AddNeighbors_absorb[of "([ex1 \<mapsto> {ex2}], {ex2})" "{CHR ''a''}"]
    by (simp add: ex_Successors ex_neq ex_graph_def)
qed

lemma ex_GenerateGraph: "GenerateGraph ex1 = Some (Inr ex_graph)"
proof -
  have "GenerateGraph_loop {CHR ''a''} (ex_graph, {}) = Some (Inr ex_graph)"
    by (subst GenerateGraph_loop.simps) simp
  then have "GenerateGraph_loop {CHR ''a''} ([ex1 \<mapsto> {ex2}], {ex2}) = Some (Inr ex_graph)"
    by (subst GenerateGraph_loop.simps) (simp add: ex_AddNeighbors2)
  then have "GenerateGraph_loop {CHR ''a''} (Map.empty, {ex1}) = Some (Inr ex_graph)"
    by (subst GenerateGraph_loop.simps) (simp add: ex_AddNeighbors1)
  then show ?thesis by (simp add: GenerateGraph_def ex_labels ex_Normalize)
qed

lemma GenerateGraph_run:
  assumes "length initial = 20"
  shows "\<exists>init g. Normalize initial (GatherLabels initial) = Inr init \<and>
           wf_state (GatherLabels initial) init \<and>
           GenerateGraph initial = Some (Inr g) \<and>
           Run (GatherLabels initial) init (g, {})"
proof -
  let ?L = "GatherLabels initial"
  have bl: "blank \<notin> ?L" by (simp add: GatherLabels_eq)
  from Normalize_wf[OF subset_refl bl assms] obtain init where
    init: "Normalize initial ?L = Inr init" "wf_state ?L init" by blast
  from GenerateGraph_loop_total[OF init(2) bl Run.initial] obtain g where
    "GenerateGraph_loop ?L (Map.empty, {init}) = Some (Inr g)" "Run ?L init (g, {})" by blast
  then show ?thesis using init by (auto simp: GenerateGraph_def)
qed

lemma edge_and_neighbour:
  assumes "i < 20"
  shows "(\<not> IsEdge d i \<and> P (Move d i)) =
     (case d of
        LEFT \<Rightarrow> i mod 4 \<noteq> 0 \<and> P (i - 1)
      | RIGHT \<Rightarrow> i mod 4 \<noteq> 3 \<and> P (i + 1)
      | TOP \<Rightarrow> i div 4 \<noteq> 0 \<and> P (i - 4)
      | BOTTOM \<Rightarrow> i div 4 \<noteq> 4 \<and> P (i + 4))"
proof (cases "IsEdge d i")
  case True
  then show ?thesis using assms by (cases d) auto
next
  case False
  have e: "(case d of LEFT \<Rightarrow> i mod 4 \<noteq> 0 | RIGHT \<Rightarrow> i mod 4 \<noteq> 3
              | TOP \<Rightarrow> i div 4 \<noteq> 0 | BOTTOM \<Rightarrow> i div 4 \<noteq> 4)"
    using False assms by (cases d) auto
  from Move_inside[OF assms False] have
    "Move d i = (case d of LEFT \<Rightarrow> i - 1 | RIGHT \<Rightarrow> i + 1 | TOP \<Rightarrow> i - 4 | BOTTOM \<Rightarrow> i + 4)"
    by simp
  then show ?thesis using False e by (cases d) simp_all
qed

lemma Move_block_cell:
  assumes "length s = 20" "CanMove s label d (Indices s label)" "i < 20" "s ! i = label"
  shows "Move d i = (case d of LEFT \<Rightarrow> i - 1 | RIGHT \<Rightarrow> i + 1 | TOP \<Rightarrow> i - 4 | BOTTOM \<Rightarrow> i + 4)"
proof -
  have "\<not> IsEdge d i" using assms by (auto simp: CanMove_iff set_Indices)
  from Move_inside[OF assms(3) this] show ?thesis by simp
qed

lemma main_CanMove:
  assumes "label \<in> set ''123456789a''"
  shows "CanMove main_initial label d (Indices main_initial label)
           = (label = CHR ''9'' \<and> d = BOTTOM)"
  using assms
  by (cases d) (auto simp: main_initial_def Indices_def upt_rec size_t_mod_def)

lemma main_labels: "GatherLabels main_initial = set ''123456789a''"
  by (auto simp: GatherLabels_eq main_initial_def)

lemma main_MoveBlock:
  "MoveBlock main_initial (CHR ''9'') BOTTOM (Indices main_initial (CHR ''9''))
     = ''1223'' @ ''1223'' @ ''4567'' @ ''8  a'' @ ''899a''"
  by (simp add: main_initial_def Indices_def MoveBlock_def upt_rec size_t_mod_def)

lemma main_Normalize_moved:
  "Normalize (''1223'' @ ''1223'' @ ''4567'' @ ''8  a'' @ ''899a'') (set ''123456789a'')
     = Inr (''1223'' @ ''1223'' @ ''4567'' @ ''8  9'' @ ''8aa9'')"
  by (simp add: Normalize_def sorted_list_of_set_sort_remdups SwapLabel_def)

lemma main_successors:
  "{t. \<exists>l\<in>set ''123456789a''. \<exists>e.
        CanMove main_initial l e (Indices main_initial l) \<and>
        Normalize (MoveBlock main_initial l e (Indices main_initial l)) (set ''123456789a'') = Inr t}
     = {''1223'' @ ''1223'' @ ''4567'' @ ''8  9'' @ ''8aa9''}"
proof -
  have "(\<exists>l\<in>set ''123456789a''. \<exists>e.
        CanMove main_initial l e (Indices main_initial l) \<and>
        Normalize (MoveBlock main_initial l e (Indices main_initial l)) (set ''123456789a'') = Inr t)
     \<longleftrightarrow> t = ''1223'' @ ''1223'' @ ''4567'' @ ''8  9'' @ ''8aa9''" for t
  proof
    assume "\<exists>l\<in>set ''123456789a''. \<exists>e.
        CanMove main_initial l e (Indices main_initial l) \<and>
        Normalize (MoveBlock main_initial l e (Indices main_initial l)) (set ''123456789a'') = Inr t"
    then obtain l e where le: "l \<in> set ''123456789a''"
        "CanMove main_initial l e (Indices main_initial l)"
        "Normalize (MoveBlock main_initial l e (Indices main_initial l)) (set ''123456789a'') = Inr t"
      by blast
    from le(2) main_CanMove[OF le(1), of e] have "l = CHR ''9''" "e = BOTTOM" by simp_all
    with le(3) show "t = ''1223'' @ ''1223'' @ ''4567'' @ ''8  9'' @ ''8aa9''"
      by (simp only: main_MoveBlock main_Normalize_moved sum.inject)
  next
    assume t: "t = ''1223'' @ ''1223'' @ ''4567'' @ ''8  9'' @ ''8aa9''"
    have "CHR ''9'' \<in> set ''123456789a''" by simp
    moreover have "CanMove main_initial (CHR ''9'') BOTTOM (Indices main_initial (CHR ''9''))"
      using main_CanMove[OF calculation, of BOTTOM] by simp
    moreover have "Normalize (MoveBlock main_initial (CHR ''9'') BOTTOM
        (Indices main_initial (CHR ''9''))) (set ''123456789a'') = Inr t"
      unfolding t by (simp only: main_MoveBlock main_Normalize_moved)
    ultimately show "\<exists>l\<in>set ''123456789a''. \<exists>e.
        CanMove main_initial l e (Indices main_initial l) \<and>
        Normalize (MoveBlock main_initial l e (Indices main_initial l)) (set ''123456789a'') = Inr t"
      by blast
  qed
  then show ?thesis by blast
qed

text \<open>
  Claim C3 (move relation). The board has 20 cells in rows of four: cell \<open>i\<close> is in column
  \<open>i mod 4\<close> and in row \<open>i div 4\<close>, and the cells next to it are \<open>i - 1\<close> on the left,
  \<open>i + 1\<close> on the right, \<open>i - 4\<close> above and \<open>i + 4\<close> below. For every state of 20 cells,
  every label and every direction: the builder finds the move feasible exactly if every
  cell holding the label is not in the outermost column or row in that direction and has
  the empty marker or the same label in the cell next to it in that direction. The state
  that a feasible move hands to Normalize has 20 cells: the label in the cells that are
  next to a cell of the block in that direction, the empty marker in the other cells the
  block had, and every other cell as it was. When the builder explores the state, it stores
  as its successors exactly the normalised results of the feasible moves of the labels,
  and it adds those that are not yet vertices to the states to explore.
\<close>

theorem move_relation:
  assumes "length current = 20"
  shows "(CanMove current label d (Indices current label) \<longleftrightarrow>
           (\<forall>i<20. current ! i = label \<longrightarrow>
              (case d of
                 LEFT \<Rightarrow> i mod 4 \<noteq> 0 \<and> (current ! (i - 1) = blank \<or> current ! (i - 1) = label)
               | RIGHT \<Rightarrow> i mod 4 \<noteq> 3 \<and> (current ! (i + 1) = blank \<or> current ! (i + 1) = label)
               | TOP \<Rightarrow> i div 4 \<noteq> 0 \<and> (current ! (i - 4) = blank \<or> current ! (i - 4) = label)
               | BOTTOM \<Rightarrow> i div 4 \<noteq> 4 \<and> (current ! (i + 4) = blank \<or> current ! (i + 4) = label))))
       \<and> (CanMove current label d (Indices current label) \<longrightarrow>
            length (MoveBlock current label d (Indices current label)) = 20
            \<and> (\<forall>j<20. MoveBlock current label d (Indices current label) ! j =
                  (if \<exists>i<20. current ! i = label \<and>
                        (case d of LEFT \<Rightarrow> i - 1 | RIGHT \<Rightarrow> i + 1
                                 | TOP \<Rightarrow> i - 4 | BOTTOM \<Rightarrow> i + 4) = j then label
                   else if current ! j = label then blank
                   else current ! j)))
       \<and> (\<forall>g ws labels.
            finite ws \<and> ws \<noteq> {} \<and> Min ws = current \<and> current \<notin> dom g \<and>
            GatherLabels current \<subseteq> labels \<and> blank \<notin> labels \<longrightarrow>
            (let N = {t. \<exists>l\<in>labels. \<exists>e.
                          CanMove current l e (Indices current l) \<and>
                          Normalize (MoveBlock current l e (Indices current l)) labels = Inr t}
             in AddNeighbors (g, ws) labels =
                  Inr (g(current \<mapsto> N), (ws - {current}) \<union> (N - insert current (dom g)))))"
proof -
  have 1: "CanMove current label d (Indices current label) \<longleftrightarrow>
           (\<forall>i<20. current ! i = label \<longrightarrow>
              (case d of
                 LEFT \<Rightarrow> i mod 4 \<noteq> 0 \<and> (current ! (i - 1) = blank \<or> current ! (i - 1) = label)
               | RIGHT \<Rightarrow> i mod 4 \<noteq> 3 \<and> (current ! (i + 1) = blank \<or> current ! (i + 1) = label)
               | TOP \<Rightarrow> i div 4 \<noteq> 0 \<and> (current ! (i - 4) = blank \<or> current ! (i - 4) = label)
               | BOTTOM \<Rightarrow> i div 4 \<noteq> 4 \<and> (current ! (i + 4) = blank \<or> current ! (i + 4) = label)))"
  proof -
    have "CanMove current label d (Indices current label) \<longleftrightarrow>
           (\<forall>i<20. current ! i = label \<longrightarrow>
              \<not> IsEdge d i \<and> (current ! Move d i = blank \<or> current ! Move d i = label))"
      using assms by (auto simp: CanMove_iff set_Indices)
    also have "\<dots> \<longleftrightarrow> (\<forall>i<20. current ! i = label \<longrightarrow>
              (case d of
                 LEFT \<Rightarrow> i mod 4 \<noteq> 0 \<and> (current ! (i - 1) = blank \<or> current ! (i - 1) = label)
               | RIGHT \<Rightarrow> i mod 4 \<noteq> 3 \<and> (current ! (i + 1) = blank \<or> current ! (i + 1) = label)
               | TOP \<Rightarrow> i div 4 \<noteq> 0 \<and> (current ! (i - 4) = blank \<or> current ! (i - 4) = label)
               | BOTTOM \<Rightarrow> i div 4 \<noteq> 4 \<and> (current ! (i + 4) = blank \<or> current ! (i + 4) = label)))"
      using edge_and_neighbour[of _ d "\<lambda>k. current ! k = blank \<or> current ! k = label"]
      by simp
    finally show ?thesis .
  qed
  have 2: "length (MoveBlock current label d (Indices current label)) = 20"
    using assms by (simp add: length_MoveBlock)
  have 3: "MoveBlock current label d (Indices current label) ! j =
                  (if \<exists>i<20. current ! i = label \<and>
                        (case d of LEFT \<Rightarrow> i - 1 | RIGHT \<Rightarrow> i + 1
                                 | TOP \<Rightarrow> i - 4 | BOTTOM \<Rightarrow> i + 4) = j then label
                   else if current ! j = label then blank
                   else current ! j)"
    if c: "CanMove current label d (Indices current label)" and j: "j < 20" for j
  proof -
    have "(j \<in> Move d ` set (Indices current label)) \<longleftrightarrow>
          (\<exists>i<20. current ! i = label \<and>
                        (case d of LEFT \<Rightarrow> i - 1 | RIGHT \<Rightarrow> i + 1
                                 | TOP \<Rightarrow> i - 4 | BOTTOM \<Rightarrow> i + 4) = j)"
      using Move_block_cell[OF assms c] assms by (auto simp: set_Indices image_iff)
    moreover have "(j \<in> set (Indices current label)) \<longleftrightarrow> current ! j = label"
      using assms j by (simp add: set_Indices)
    moreover have "MoveBlock current label d (Indices current label) ! j =
        (if j \<in> Move d ` set (Indices current label) then label
         else if j \<in> set (Indices current label) then blank else current ! j)"
      using nth_MoveBlock[of j current label d "Indices current label"] j assms by simp
    ultimately show ?thesis by (simp only:)
  qed
  have 4: "(let N = {t. \<exists>l\<in>labels. \<exists>e.
                          CanMove current l e (Indices current l) \<and>
                          Normalize (MoveBlock current l e (Indices current l)) labels = Inr t}
             in AddNeighbors (g, ws) labels =
                  Inr (g(current \<mapsto> N), (ws - {current}) \<union> (N - insert current (dom g))))"
    if h: "finite ws" "ws \<noteq> {}" "Min ws = current" "current \<notin> dom g"
       "GatherLabels current \<subseteq> labels" "blank \<notin> labels" for g ws labels
  proof -
    have n: "\<exists>t. Normalize (Slide (Min (snd (g, ws))) l e) labels = Inr t"
      if "l \<in> labels" for l e
      using Normalize_wf[of "Slide current l e" labels]
        GatherLabels_Slide[OF h(5) that, of e] h(3,6) assms
      by (auto simp: length_Slide)
    have "AddNeighbors (g, ws) labels =
       Inr (g(current \<mapsto> Successors labels current),
            (ws - {current}) \<union> (Successors labels current - insert current (dom g)))"
      using AddNeighbors_absorb[of "(g, ws)" labels] h(1-4) n by simp
    then show ?thesis
      by (simp add: Let_def Successors_def Feasible_def Slide_def)
  qed
  show ?thesis
  proof (intro conjI allI impI)
    show "CanMove current label d (Indices current label) \<longleftrightarrow>
           (\<forall>i<20. current ! i = label \<longrightarrow>
              (case d of
                 LEFT \<Rightarrow> i mod 4 \<noteq> 0 \<and> (current ! (i - 1) = blank \<or> current ! (i - 1) = label)
               | RIGHT \<Rightarrow> i mod 4 \<noteq> 3 \<and> (current ! (i + 1) = blank \<or> current ! (i + 1) = label)
               | TOP \<Rightarrow> i div 4 \<noteq> 0 \<and> (current ! (i - 4) = blank \<or> current ! (i - 4) = label)
               | BOTTOM \<Rightarrow> i div 4 \<noteq> 4 \<and> (current ! (i + 4) = blank \<or> current ! (i + 4) = label)))"
      by (rule 1)
  next
    show "length (MoveBlock current label d (Indices current label)) = 20" by (rule 2)
  next
    fix j :: nat
    assume "CanMove current label d (Indices current label)" "j < 20"
    then show "MoveBlock current label d (Indices current label) ! j =
                  (if \<exists>i<20. current ! i = label \<and>
                        (case d of LEFT \<Rightarrow> i - 1 | RIGHT \<Rightarrow> i + 1
                                 | TOP \<Rightarrow> i - 4 | BOTTOM \<Rightarrow> i + 4) = j then label
                   else if current ! j = label then blank
                   else current ! j)"
      by (rule 3)
  next
    fix g :: Graph and ws :: "State set" and labels :: Labels
    assume "finite ws \<and> ws \<noteq> {} \<and> Min ws = current \<and> current \<notin> dom g \<and>
            GatherLabels current \<subseteq> labels \<and> blank \<notin> labels"
    then show "(let N = {t. \<exists>l\<in>labels. \<exists>e.
                          CanMove current l e (Indices current l) \<and>
                          Normalize (MoveBlock current l e (Indices current l)) labels = Inr t}
             in AddNeighbors (g, ws) labels =
                  Inr (g(current \<mapsto> N), (ws - {current}) \<union> (N - insert current (dom g))))"
      using 4[of ws g labels] by (elim conjE) simp
  qed
qed

theorem move_relation_witness:
  "length ex1 = 20
   \<and> ex1 ! 3 = CHR ''a'' \<and> (3::nat) mod 4 = 3 \<and> ex1 ! (3 + 1) = CHR ''a''
   \<and> \<not> CanMove ex1 (CHR ''a'') RIGHT (Indices ex1 (CHR ''a''))
   \<and> length main_initial = 20
   \<and> main_initial ! 13 = CHR ''9'' \<and> (13::nat) div 4 \<noteq> 0 \<and> main_initial ! (13 - 4) = CHR ''5''
   \<and> \<not> CanMove main_initial (CHR ''9'') TOP (Indices main_initial (CHR ''9''))
   \<and> CanMove main_initial (CHR ''9'') BOTTOM (Indices main_initial (CHR ''9''))
   \<and> MoveBlock main_initial (CHR ''9'') BOTTOM (Indices main_initial (CHR ''9''))
       = ''1223'' @ ''1223'' @ ''4567'' @ ''8  a'' @ ''899a''
   \<and> finite {main_initial} \<and> {main_initial} \<noteq> {} \<and> Min {main_initial} = main_initial
   \<and> main_initial \<notin> dom (Map.empty :: Graph)
   \<and> GatherLabels main_initial \<subseteq> set ''123456789a'' \<and> blank \<notin> set ''123456789a''
   \<and> AddNeighbors (Map.empty, {main_initial}) (set ''123456789a'')
       = Inr ([main_initial \<mapsto> {''1223'' @ ''1223'' @ ''4567'' @ ''8  9'' @ ''8aa9''}],
              {''1223'' @ ''1223'' @ ''4567'' @ ''8  9'' @ ''8aa9''})"
proof -
  have len: "length main_initial = 20" by (simp add: main_initial_def)
  have 1: "\<not> CanMove ex1 (CHR ''a'') RIGHT (Indices ex1 (CHR ''a''))"
  proof
    assume "CanMove ex1 (CHR ''a'') RIGHT (Indices ex1 (CHR ''a''))"
    with move_relation[where current = ex1 and label = "CHR ''a''" and d = RIGHT,
        OF ex_length(1), THEN conjunct1]
    have "\<forall>i<20. ex1 ! i = CHR ''a'' \<longrightarrow>
            i mod 4 \<noteq> 3 \<and> (ex1 ! (i + 1) = blank \<or> ex1 ! (i + 1) = CHR ''a'')"
      by simp
    from this[rule_format, of 3] show False by (simp add: ex1_def)
  qed
  have 2: "\<not> CanMove main_initial (CHR ''9'') TOP (Indices main_initial (CHR ''9''))"
  proof
    assume "CanMove main_initial (CHR ''9'') TOP (Indices main_initial (CHR ''9''))"
    with move_relation[where current = main_initial and label = "CHR ''9''" and d = TOP,
        OF len, THEN conjunct1]
    have "\<forall>i<20. main_initial ! i = CHR ''9'' \<longrightarrow>
            i div 4 \<noteq> 0 \<and> (main_initial ! (i - 4) = blank \<or> main_initial ! (i - 4) = CHR ''9'')"
      by simp
    from this[rule_format, of 13] show False by (simp add: main_initial_def)
  qed
  have 3: "CanMove main_initial (CHR ''9'') BOTTOM (Indices main_initial (CHR ''9''))"
    using main_CanMove[of "CHR ''9''" BOTTOM] by simp
  have hyp: "finite {main_initial} \<and> {main_initial} \<noteq> {} \<and> Min {main_initial} = main_initial \<and>
      main_initial \<notin> dom (Map.empty :: Graph) \<and>
      GatherLabels main_initial \<subseteq> set ''123456789a'' \<and> blank \<notin> set ''123456789a''"
    by (simp add: main_labels)
  have neq: "''1223'' @ ''1223'' @ ''4567'' @ ''8  9'' @ ''8aa9'' \<noteq> main_initial"
    by (simp add: main_initial_def)
  have 4: "AddNeighbors (Map.empty, {main_initial}) (set ''123456789a'')
       = Inr ([main_initial \<mapsto> {''1223'' @ ''1223'' @ ''4567'' @ ''8  9'' @ ''8aa9''}],
              {''1223'' @ ''1223'' @ ''4567'' @ ''8  9'' @ ''8aa9''})"
    using move_relation[where current = main_initial, OF len, THEN conjunct2, THEN conjunct2,
        rule_format, of "{main_initial}" Map.empty "set ''123456789a''", OF hyp] neq
    unfolding Let_def main_successors by simp
  have 5: "ex1 ! 3 = CHR ''a''" "(3::nat) mod 4 = 3" "ex1 ! (3 + 1) = CHR ''a''"
    by (simp_all add: ex1_def)
  have 6: "main_initial ! 13 = CHR ''9''" "(13::nat) div 4 \<noteq> 0"
    "main_initial ! (13 - 4) = CHR ''5''"
    by (simp_all add: main_initial_def)
  show ?thesis
    by (simp only: 1 2 3 4 5 6 hyp len ex_length(1) main_MoveBlock simp_thms)
qed

lemma mod4_pred: "(i::nat) mod 4 \<noteq> 0 \<Longrightarrow> (i - 1) mod 4 \<noteq> 3 \<and> 0 < i"
  by (cases i) (auto simp: mod_Suc split: if_splits)

lemma mod4_succ: "(i::nat) mod 4 \<noteq> 3 \<Longrightarrow> (i + 1) mod 4 \<noteq> 0"
  by (auto simp: mod_Suc split: if_splits)

lemma Move_back:
  assumes "i < 20" "\<not> IsEdge d i"
  shows "Move d i < 20 \<and> \<not> IsEdge (Opposite d) (Move d i) \<and> Move (Opposite d) (Move d i) = i"
proof -
  have l: "Move d i < 20" using Move_inside[OF assms] by simp
  show ?thesis
  proof (cases d)
    case LEFT
    then have m: "Move d i = i - 1" using Move_inside[OF assms] by simp
    have i: "(i - 1) mod 4 \<noteq> 3" "0 < i" using mod4_pred[of i] assms LEFT by simp_all
    then have e: "\<not> IsEdge RIGHT (i - 1)" by simp
    have "i - 1 < 20" using assms by simp
    from Move_inside[OF this e] have "Move RIGHT (i - 1) = i" using i(2) by simp
    then show ?thesis using l e m LEFT by simp
  next
    case RIGHT
    then have m: "Move d i = i + 1" using Move_inside[OF assms] by simp
    have e: "\<not> IsEdge LEFT (i + 1)" using mod4_succ[of i] assms RIGHT by simp
    have "i + 1 < 20" using l m by simp
    from Move_inside[OF this e] have "Move LEFT (i + 1) = i" by simp
    then show ?thesis using l e m RIGHT by simp
  next
    case TOP
    then have m: "Move d i = i - 4" using Move_inside[OF assms] by simp
    have i: "4 \<le> i" using assms TOP by simp
    have e: "\<not> IsEdge BOTTOM (i - 4)" using assms by simp
    have "i - 4 < 20" using assms by simp
    from Move_inside[OF this e] have "Move BOTTOM (i - 4) = i" using i by simp
    then show ?thesis using l e m TOP by simp
  next
    case BOTTOM
    then have m: "Move d i = i + 4" using Move_inside[OF assms] by simp
    have e: "\<not> IsEdge TOP (i + 4)" by simp
    have "i + 4 < 20" using l m by simp
    from Move_inside[OF this e] have "Move TOP (i + 4) = i" by simp
    then show ?thesis using l e m BOTTOM by simp
  qed
qed

lemma nth_Slide:
  "j < length s \<Longrightarrow> Slide s l d ! j =
     (if j \<in> Move d ` set (Indices s l) then l
      else if s ! j = l then blank else s ! j)"
  by (auto simp: Slide_def nth_MoveBlock set_Indices)

lemma Feasible_iff:
  "Feasible s l d \<longleftrightarrow>
     (\<forall>i\<in>set (Indices s l). \<not> IsEdge d i \<and> (s ! Move d i = blank \<or> s ! Move d i = l))"
  by (simp add: Feasible_def CanMove_iff)

lemma Indices_Slide:
  assumes "length A = 20" "Feasible A X D" "X \<noteq> blank"
  shows "set (Indices (Slide A X D) X) = Move D ` set (Indices A X)"
proof -
  have in20: "Move D i < 20" if "i \<in> set (Indices A X)" for i
    using that assms(1,2) Move_back[of i D] by (auto simp: Feasible_iff set_Indices)
  show ?thesis
  proof (intro set_eqI iffI)
    fix j assume "j \<in> set (Indices (Slide A X D) X)"
    then have j: "j < 20" "Slide A X D ! j = X"
      using assms(1) by (auto simp: set_Indices length_Slide)
    then show "j \<in> Move D ` set (Indices A X)"
      using assms(1,3) nth_Slide[of j A X D] by (auto split: if_splits)
  next
    fix j assume j: "j \<in> Move D ` set (Indices A X)"
    then have "j < 20" using in20 by auto
    then show "j \<in> set (Indices (Slide A X D) X)"
      using j assms(1) nth_Slide[of j A X D] by (simp add: set_Indices length_Slide)
  qed
qed

lemma Slide_back:
  assumes len: "length A = 20" and feas: "Feasible A X D" and nb: "X \<noteq> blank"
  shows "Feasible (Slide A X D) X (Opposite D) \<and> Slide (Slide A X D) X (Opposite D) = A"
proof -
  let ?S = "Slide A X D"
  let ?I = "set (Indices A X)"
  have I: "\<And>i. i \<in> ?I \<longleftrightarrow> i < 20 \<and> A ! i = X" using len by (auto simp: set_Indices)
  have f: "\<And>i. i \<in> ?I \<Longrightarrow> \<not> IsEdge D i \<and> (A ! Move D i = blank \<or> A ! Move D i = X)"
    using feas by (simp add: Feasible_iff)
  have mb: "\<And>i. i \<in> ?I \<Longrightarrow> Move D i < 20 \<and> \<not> IsEdge (Opposite D) (Move D i)
                \<and> Move (Opposite D) (Move D i) = i"
    using Move_back f I by blast
  have IS: "set (Indices ?S X) = Move D ` ?I" using Indices_Slide[OF len feas nb] .
  have bk: "Move (Opposite D) ` set (Indices ?S X) = ?I"
    unfolding IS using mb by force
  have lenS: "length ?S = 20" using len by (simp add: length_Slide)
  have 1: "Feasible ?S X (Opposite D)"
    unfolding Feasible_iff IS
  proof
    fix j assume "j \<in> Move D ` ?I"
    then obtain i where i: "i \<in> ?I" "j = Move D i" by auto
    have "?S ! i = blank \<or> ?S ! i = X"
      using nth_Slide[of i A X D] i(1) I len by auto
    then show "\<not> IsEdge (Opposite D) j \<and>
        (?S ! Move (Opposite D) j = blank \<or> ?S ! Move (Opposite D) j = X)"
      using mb[OF i(1)] i(2) by simp
  qed
  have 2: "Slide ?S X (Opposite D) = A"
  proof (rule nth_equalityI)
    show "length (Slide ?S X (Opposite D)) = length A" by (simp add: length_Slide)
  next
    fix k assume "k < length (Slide ?S X (Opposite D))"
    then have k: "k < 20" using len by (simp add: length_Slide)
    have e: "Slide ?S X (Opposite D) ! k =
        (if k \<in> ?I then X else if ?S ! k = X then blank else ?S ! k)"
      using nth_Slide[of k ?S X "Opposite D"] k lenS bk by simp
    show "Slide ?S X (Opposite D) ! k = A ! k"
    proof (cases "k \<in> ?I")
      case True
      then show ?thesis using e I by simp
    next
      case False
      then have ak: "A ! k \<noteq> X" using I k by simp
      show ?thesis
      proof (cases "k \<in> Move D ` ?I")
        case True
        then have "A ! k = blank" using f ak by auto
        moreover have "?S ! k = X" using nth_Slide[of k A X D] k len True by simp
        ultimately show ?thesis using e False by simp
      next
        case nsh: False
        then have "?S ! k = A ! k" using nth_Slide[of k A X D] k len ak by simp
        then show ?thesis using e False ak by simp
      qed
    qed
  qed
  from 1 2 show ?thesis by simp
qed

lemma Indices_map:
  assumes "inj \<pi>"
  shows "Indices (map \<pi> s) (\<pi> X) = Indices s X"
proof -
  have "(map \<pi> s ! i = \<pi> X) = (s ! i = X)" if "i \<in> set [0..<length s]" for i
    using that assms by (auto dest: injD)
  then have "filter (\<lambda>i. map \<pi> s ! i = \<pi> X) [0..<length s]
           = filter (\<lambda>i. s ! i = X) [0..<length s]"
    by (intro filter_cong) simp_all
  then show ?thesis by (simp add: Indices_def)
qed

lemma MoveBlock_map:
  assumes "\<pi> blank = blank"
  shows "MoveBlock (map \<pi> s) (\<pi> X) D is = map \<pi> (MoveBlock s X D is)"
proof -
  have a: "fold (\<lambda>i t. t[f i := \<pi> v]) js (map \<pi> t) = map \<pi> (fold (\<lambda>i t. t[f i := v]) js t)"
    for f :: "nat \<Rightarrow> nat" and v :: char and js :: "nat list" and t :: State
    by (induction js arbitrary: t) (simp_all add: map_update[symmetric])
  show ?thesis
    unfolding MoveBlock_def using a[of "\<lambda>i. i" blank "is" s] assms
    by (simp add: a)
qed

lemma Feasible_map:
  assumes "length s = 20" "inj \<pi>" "\<pi> blank = blank"
  shows "Feasible (map \<pi> s) (\<pi> X) D = Feasible s X D"
proof -
  have "(map \<pi> s ! Move D i = blank \<or> map \<pi> s ! Move D i = \<pi> X)
      = (s ! Move D i = blank \<or> s ! Move D i = X)"
    if "i \<in> set (Indices s X)" "\<not> IsEdge D i" for i
  proof -
    have "Move D i < length s" using that assms(1) Move_back[of i D] by (simp add: set_Indices)
    then have "map \<pi> s ! Move D i = \<pi> (s ! Move D i)" by simp
    moreover have "\<And>a b. (\<pi> a = \<pi> b) = (a = b)" using assms(2) by (auto dest: injD)
    ultimately show ?thesis using assms(3) by metis
  qed
  then show ?thesis
    unfolding Feasible_iff Indices_map[OF assms(2)] by blast
qed

lemma move_reversible:
  assumes wf: "wf_state labels A" and bl: "blank \<notin> labels" and lab: "label \<in> labels"
    and feas: "Feasible A label D" and B: "Normalize (Slide A label D) labels = Inr B"
  shows "\<exists>label'\<in>labels. Feasible B label' (Opposite D) \<and>
           Normalize (Slide B label' (Opposite D)) labels = Inr A"
proof -
  let ?S = "Slide A label D"
  have len: "length A = 20" and gA: "GatherLabels A \<subseteq> labels" and nA: "Normalize A labels = Inr A"
    using wf by (simp_all add: wf_state_def)
  have gS: "GatherLabels ?S \<subseteq> labels" using GatherLabels_Slide[OF gA lab] .
  from Normalize_relabel[OF gS bl] B obtain \<pi> where
    p: "bij \<pi>" "\<forall>x. x \<notin> labels \<longrightarrow> \<pi> x = x" "B = map \<pi> ?S" by auto
  have inj: "inj \<pi>" using p(1) by (rule bij_is_inj)
  have pb: "\<pi> blank = blank" using p(2) bl by simp
  have nb: "label \<noteq> blank" using lab bl by auto
  have lenS: "length ?S = 20" using len by (simp add: length_Slide)
  from Slide_back[OF len feas nb] have
    sb: "Feasible ?S label (Opposite D)" "Slide ?S label (Opposite D) = A" by simp_all
  have 1: "\<pi> label \<in> labels" using bij_fix_maps_in[OF p(1,2) lab] .
  have 2: "Feasible B (\<pi> label) (Opposite D)"
    unfolding p(3) using Feasible_map[OF lenS inj pb] sb(1) by simp
  have "Slide B (\<pi> label) (Opposite D) = map \<pi> A"
    unfolding p(3) Slide_def Indices_map[OF inj]
    using sb(2) MoveBlock_map[of \<pi> ?S label "Opposite D" "Indices ?S label", OF pb]
    by (simp add: Slide_def)
  then have 3: "Normalize (Slide B (\<pi> label) (Opposite D)) labels = Inr A"
    using Normalize_map_bij[OF gA bl p(1,2)] nA by simp
  from 1 2 3 show ?thesis by blast
qed

lemma Successors_sym:
  assumes "wf_state labels A" "blank \<notin> labels" "B \<in> Successors labels A"
  shows "A \<in> Successors labels B"
proof -
  from assms(3) obtain label D where
    "label \<in> labels" "Feasible A label D" "Normalize (Slide A label D) labels = Inr B"
    by (auto simp: Successors_def)
  from move_reversible[OF assms(1,2) this] show ?thesis
    by (auto simp: Successors_def)
qed

lemma Run_final_Inv:
  assumes "Run labels init gs" "wf_state labels init" "blank \<notin> labels"
  shows "\<forall>v\<in>dom (fst gs) \<union> snd gs \<union> \<Union>(ran (fst gs)). wf_state labels v"
proof
  fix v assume v: "v \<in> dom (fst gs) \<union> snd gs \<union> \<Union>(ran (fst gs))"
  have inv: "Inv labels init gs" using Run_Inv[OF assms] .
  have r: "\<And>u. u \<in> dom (fst gs) \<union> snd gs \<Longrightarrow> wf_state labels u"
    using inv Reachable_wf[OF _ assms(2,3)] by (auto simp: Inv_def)
  from v consider "v \<in> dom (fst gs) \<union> snd gs" | "v \<in> \<Union>(ran (fst gs))" by blast
  then show "wf_state labels v"
  proof cases
    case 1
    then show ?thesis using r by blast
  next
    case 2
    then obtain u N where u: "fst gs u = Some N" "v \<in> N" by (auto simp: ran_def)
    then have "u \<in> dom (fst gs)" by auto
    then have "N = Successors labels u" "wf_state labels u"
      using inv u(1) r by (auto simp: Inv_def)
    then show ?thesis using Successors_wf[OF _ assms(3)] u(2) by blast
  qed
qed

lemma Inv_closed:
  assumes "Inv labels init (g, {})"
  shows "dom g = {s. Reachable labels init s}"
proof (intro set_eqI iffI)
  fix s assume "s \<in> dom g"
  then show "s \<in> {s. Reachable labels init s}" using assms by (auto simp: Inv_def)
next
  fix s assume "s \<in> {s. Reachable labels init s}"
  then have "Reachable labels init s" by simp
  then show "s \<in> dom g"
  proof (induction rule: Reachable.induct)
    case start
    then show ?case using assms by (auto simp: Inv_def)
  next
    case (step s t)
    then show ?case using assms by (auto simp: Inv_def)
  qed
qed

lemma RunFrom_first_step:
  "RunFrom labels b c \<Longrightarrow>
     c = b \<or> (\<exists>b1. snd b \<noteq> {} \<and> AddNeighbors b labels = Inr b1 \<and> RunFrom labels b1 c)"
proof (induction rule: RunFrom.induct)
  case same
  then show ?case by simp
next
  case (later gs gs')
  show ?case
  proof (cases "gs = b")
    case True
    then show ?thesis using later.hyps(2,3) RunFrom.same by blast
  next
    case False
    then obtain b1 where "snd b \<noteq> {}" "AddNeighbors b labels = Inr b1" "RunFrom labels b1 gs"
      using later.IH by blast
    then show ?thesis using RunFrom.later[OF _ later.hyps(2,3)] by blast
  qed
qed

lemma RunFrom_linear:
  "RunFrom labels a b \<Longrightarrow> RunFrom labels a c \<Longrightarrow> RunFrom labels b c \<or> RunFrom labels c b"
proof (induction rule: RunFrom.induct)
  case same
  then show ?case by simp
next
  case (later gs gs')
  from later.IH[OF later.prems] show ?case
  proof
    assume "RunFrom labels c gs"
    then show ?thesis using RunFrom.later[OF _ later.hyps(2,3)] by blast
  next
    assume "RunFrom labels gs c"
    from RunFrom_first_step[OF this] show ?thesis
    proof
      assume "c = gs"
      then show ?thesis using RunFrom.later[OF RunFrom.same later.hyps(2,3)] by blast
    next
      assume "\<exists>b1. snd gs \<noteq> {} \<and> AddNeighbors gs labels = Inr b1 \<and> RunFrom labels b1 c"
      then show ?thesis using later.hyps(3) by auto
    qed
  qed
qed

lemma Run_RunFrom: "Run labels init gs \<Longrightarrow> RunFrom labels (Map.empty, {init}) gs"
  by (induction rule: Run.induct) (auto intro: RunFrom.intros)

lemma Run_extend: "RunFrom labels gs gs' \<Longrightarrow> Run labels init gs \<Longrightarrow> Run labels init gs'"
  by (induction rule: RunFrom.induct) (auto intro: Run.explore)

lemma RunFrom_dom_mono:
  assumes "wf_state labels init" "blank \<notin> labels"
  shows "RunFrom labels gs gs' \<Longrightarrow> Run labels init gs \<Longrightarrow> dom (fst gs) \<subseteq> dom (fst gs')"
proof (induction rule: RunFrom.induct)
  case same
  then show ?case by simp
next
  case (later gs1 gs2)
  have "Run labels init gs1" using Run_extend[OF later.hyps(1) later.prems] .
  from Inv_step[OF Run_Inv[OF this assms] later.hyps(2) assms] later.hyps(3)
  have "dom (fst gs2) = insert (Min (snd gs1)) (dom (fst gs1))" by auto
  then show ?case using later.IH[OF later.prems] by auto
qed

lemma popped_once_aux:
  assumes wf: "wf_state labels init" and bl: "blank \<notin> labels"
    and r: "Run labels init gs" "Run labels init gs'"
    and ne: "snd gs \<noteq> {}" "snd gs' \<noteq> {}"
    and eq: "Min (snd gs) = Min (snd gs')"
    and fr: "RunFrom labels gs gs'"
  shows "gs = gs'"
proof (rule ccontr)
  assume "gs \<noteq> gs'"
  then obtain gs1 where g1: "AddNeighbors gs labels = Inr gs1" "RunFrom labels gs1 gs'"
    using RunFrom_first_step[OF fr] by auto
  from Inv_step[OF Run_Inv[OF r(1) wf bl] ne(1) wf bl] g1(1)
  have "Min (snd gs) \<in> dom (fst gs1)" by auto
  moreover have "Run labels init gs1" using Run.explore[OF r(1) ne(1) g1(1)] .
  ultimately have "Min (snd gs) \<in> dom (fst gs')"
    using RunFrom_dom_mono[OF wf bl g1(2)] by blast
  moreover have "Min (snd gs') \<notin> dom (fst gs')"
    using Inv_step[OF Run_Inv[OF r(2) wf bl] ne(2) wf bl] by blast
  ultimately show False using eq by simp
qed

lemma popped_once:
  assumes wf: "wf_state labels init" and bl: "blank \<notin> labels"
    and r: "Run labels init gs" "Run labels init gs'"
    and ne: "snd gs \<noteq> {}" "snd gs' \<noteq> {}"
    and eq: "Min (snd gs) = Min (snd gs')"
  shows "gs = gs'"
proof -
  from RunFrom_linear[OF Run_RunFrom[OF r(1)] Run_RunFrom[OF r(2)]]
  show ?thesis
  proof
    assume "RunFrom labels gs gs'"
    then show ?thesis using popped_once_aux[OF wf bl r ne eq] by simp
  next
    assume "RunFrom labels gs' gs"
    then show ?thesis using popped_once_aux[OF wf bl r(2,1) ne(2,1) eq[symmetric]] by simp
  qed
qed

lemma vertex_popped:
  assumes wf: "wf_state labels init" and bl: "blank \<notin> labels"
  shows "Run labels init gs \<Longrightarrow>
     \<forall>v\<in>dom (fst gs). \<exists>gs0. Run labels init gs0 \<and> snd gs0 \<noteq> {} \<and> Min (snd gs0) = v"
proof (induction rule: Run.induct)
  case initial
  then show ?case by simp
next
  case (explore gs gs')
  from Inv_step[OF Run_Inv[OF explore.hyps(1) wf bl] explore.hyps(2) wf bl] explore.hyps(3)
  have d: "dom (fst gs') = insert (Min (snd gs)) (dom (fst gs))" by auto
  show ?case
  proof
    fix v assume "v \<in> dom (fst gs')"
    then consider "v = Min (snd gs)" | "v \<in> dom (fst gs)" using d by auto
    then show "\<exists>gs0. Run labels init gs0 \<and> snd gs0 \<noteq> {} \<and> Min (snd gs0) = v"
    proof cases
      case 1
      then show ?thesis using explore.hyps(1,2) by blast
    next
      case 2
      then show ?thesis using explore.IH by blast
    qed
  qed
qed

text \<open>
  Claim C9 (the assertion on expansion never fires). For every initial state of 20 cells,
  GenerateGraph returns a graph: its loop ends and no assertion fails. In every iteration
  of the run the state that AddNeighbors pops is not a vertex of the graph, AddNeighbors
  returns without a failed assertion, and the popped state is the one vertex it adds.
  Every vertex of the returned graph was popped in some iteration, and no state is popped
  in two iterations: every state is expanded exactly once.
\<close>

theorem pop_not_yet_vertex:
  assumes "length initial = 20"
  shows "\<exists>init g. Normalize initial (GatherLabels initial) = Inr init \<and>
           GenerateGraph initial = Some (Inr g) \<and>
           Run (GatherLabels initial) init (g, {}) \<and>
           (\<forall>gs. Run (GatherLabels initial) init gs \<longrightarrow> snd gs \<noteq> {} \<longrightarrow>
              Min (snd gs) \<notin> dom (fst gs) \<and>
              (\<exists>gs'. AddNeighbors gs (GatherLabels initial) = Inr gs' \<and>
                     dom (fst gs') = insert (Min (snd gs)) (dom (fst gs)))) \<and>
           (\<forall>v\<in>dom g. \<exists>gs. Run (GatherLabels initial) init gs \<and> snd gs \<noteq> {} \<and>
                              Min (snd gs) = v) \<and>
           (\<forall>gs gs'. Run (GatherLabels initial) init gs \<and> Run (GatherLabels initial) init gs' \<and>
                      snd gs \<noteq> {} \<and> snd gs' \<noteq> {} \<and> Min (snd gs) = Min (snd gs')
                      \<longrightarrow> gs = gs')"
proof -
  let ?L = "GatherLabels initial"
  have bl: "blank \<notin> ?L" by (simp add: GatherLabels_eq)
  from GenerateGraph_run[OF assms] obtain init g where
    ig: "Normalize initial ?L = Inr init" "wf_state ?L init"
      "GenerateGraph initial = Some (Inr g)" "Run ?L init (g, {})" by blast
  have 1: "\<forall>gs. Run ?L init gs \<longrightarrow> snd gs \<noteq> {} \<longrightarrow>
              Min (snd gs) \<notin> dom (fst gs) \<and>
              (\<exists>gs'. AddNeighbors gs ?L = Inr gs' \<and>
                     dom (fst gs') = insert (Min (snd gs)) (dom (fst gs)))"
  proof (intro allI impI)
    fix gs assume "Run ?L init gs" "snd gs \<noteq> {}"
    then show "Min (snd gs) \<notin> dom (fst gs) \<and>
        (\<exists>gs'. AddNeighbors gs ?L = Inr gs' \<and> dom (fst gs') = insert (Min (snd gs)) (dom (fst gs)))"
      using Inv_step[OF Run_Inv[OF _ ig(2) bl] _ ig(2) bl] by blast
  qed
  have 2: "\<forall>v\<in>dom g. \<exists>gs. Run ?L init gs \<and> snd gs \<noteq> {} \<and> Min (snd gs) = v"
    using vertex_popped[OF ig(2) bl ig(4)] by simp
  have 3: "\<forall>gs gs'. Run ?L init gs \<and> Run ?L init gs' \<and>
                      snd gs \<noteq> {} \<and> snd gs' \<noteq> {} \<and> Min (snd gs) = Min (snd gs')
                      \<longrightarrow> gs = gs'"
  proof (intro allI impI, elim conjE)
    fix gs gs'
    assume "Run ?L init gs" "Run ?L init gs'" "snd gs \<noteq> {}" "snd gs' \<noteq> {}"
      "Min (snd gs) = Min (snd gs')"
    then show "gs = gs'" by (rule popped_once[OF ig(2) bl])
  qed
  show ?thesis
    using ig(1,3,4) 1 2 3 by (intro exI[of _ init] exI[of _ g] conjI)
qed

theorem pop_not_yet_vertex_witness:
  "length ex1 = 20 \<and> Normalize ex1 (GatherLabels ex1) = Inr ex1 \<and>
   GenerateGraph ex1 = Some (Inr ex_graph) \<and>
   Run (GatherLabels ex1) ex1 (Map.empty, {ex1}) \<and>
   Min {ex1} \<notin> dom (Map.empty :: Graph) \<and>
   AddNeighbors (Map.empty, {ex1}) (GatherLabels ex1) = Inr ([ex1 \<mapsto> {ex2}], {ex2}) \<and>
   Run (GatherLabels ex1) ex1 (ex_graph, {})"
proof -
  from pop_not_yet_vertex[OF ex_length(1)] obtain init g where
    ig: "Normalize ex1 (GatherLabels ex1) = Inr init" "GenerateGraph ex1 = Some (Inr g)"
      "Run (GatherLabels ex1) init (g, {})"
      "\<forall>gs. Run (GatherLabels ex1) init gs \<longrightarrow> snd gs \<noteq> {} \<longrightarrow>
              Min (snd gs) \<notin> dom (fst gs) \<and>
              (\<exists>gs'. AddNeighbors gs (GatherLabels ex1) = Inr gs' \<and>
                     dom (fst gs') = insert (Min (snd gs)) (dom (fst gs)))" by blast
  have i: "init = ex1" using ig(1) by (simp add: ex_labels ex_Normalize)
  have g: "g = ex_graph" using ig(2) by (simp add: ex_GenerateGraph)
  have r: "Run (GatherLabels ex1) init (Map.empty, {ex1})" unfolding i by (rule Run.initial)
  have "Min (snd (Map.empty :: Graph, {ex1})) \<notin> dom (fst (Map.empty :: Graph, {ex1}))"
    using ig(4)[THEN spec, of "(Map.empty, {ex1})"] r by simp
  then show ?thesis
    using ig(1,2,3) i g ex_length(1) ex_AddNeighbors1 Run.initial[of "GatherLabels ex1" ex1]
    by (simp add: ex_labels)
qed

text \<open>
  Claim C7 (canonical-form invariant). For every initial state of 20 cells, every key of
  the graph that GenerateGraph returns and every member of its neighbour sets is a fixed
  point of Normalize under the labels gathered from the initial state, and so is, in every
  iteration of the run, every key, every neighbour and every state to explore.
\<close>

theorem stored_states_canonical:
  assumes "length initial = 20"
  shows "\<exists>init g. Normalize initial (GatherLabels initial) = Inr init \<and>
           GenerateGraph initial = Some (Inr g) \<and>
           (\<forall>v\<in>dom g \<union> \<Union>(ran g). Normalize v (GatherLabels initial) = Inr v) \<and>
           (\<forall>gs. Run (GatherLabels initial) init gs \<longrightarrow>
              (\<forall>v\<in>dom (fst gs) \<union> snd gs \<union> \<Union>(ran (fst gs)).
                  Normalize v (GatherLabels initial) = Inr v))"
proof -
  let ?L = "GatherLabels initial"
  have bl: "blank \<notin> ?L" by (simp add: GatherLabels_eq)
  from GenerateGraph_run[OF assms] obtain init g where
    ig: "Normalize initial ?L = Inr init" "wf_state ?L init"
      "GenerateGraph initial = Some (Inr g)" "Run ?L init (g, {})" by blast
  have a: "\<forall>v\<in>dom (fst gs) \<union> snd gs \<union> \<Union>(ran (fst gs)). Normalize v ?L = Inr v"
    if "Run ?L init gs" for gs
    using Run_final_Inv[OF that ig(2) bl] by (simp add: wf_state_def)
  from a[OF ig(4)] have "\<forall>v\<in>dom g \<union> \<Union>(ran g). Normalize v ?L = Inr v" by simp
  then show ?thesis using ig a by blast
qed

theorem stored_states_canonical_witness:
  "length ex1 = 20 \<and> Normalize ex1 (GatherLabels ex1) = Inr ex1 \<and>
   GenerateGraph ex1 = Some (Inr ex_graph) \<and>
   ex2 \<in> dom ex_graph \<and> Normalize ex2 (GatherLabels ex1) = Inr ex2"
proof -
  from stored_states_canonical[OF ex_length(1)] obtain init g where
    ig: "Normalize ex1 (GatherLabels ex1) = Inr init" "GenerateGraph ex1 = Some (Inr g)"
      "\<forall>v\<in>dom g \<union> \<Union>(ran g). Normalize v (GatherLabels ex1) = Inr v" by blast
  have i: "init = ex1" using ig(1) by (simp add: ex_labels ex_Normalize)
  have g: "g = ex_graph" using ig(2) by (simp add: ex_GenerateGraph)
  have d: "ex2 \<in> dom ex_graph" by (simp add: ex_graph_def)
  then have "Normalize ex2 (GatherLabels ex1) = Inr ex2" using ig(3) g by blast
  then show ?thesis using ig(1,2) i g d ex_length(1) by simp
qed

text \<open>
  Claim C4 (graph closure). For every initial state of 20 cells GenerateGraph returns a
  graph such that for every vertex, every label of the label set and every direction in
  which the block can move, the normalised successor is a vertex and a member of the
  neighbour set of the vertex; and the vertices are exactly the states reachable from the
  normalised initial state.
\<close>

theorem graph_closure:
  assumes "length initial = 20"
  shows "\<exists>init g. Normalize initial (GatherLabels initial) = Inr init \<and>
           GenerateGraph initial = Some (Inr g) \<and>
           (\<forall>v\<in>dom g. \<forall>label\<in>GatherLabels initial. \<forall>d.
               CanMove v label d (Indices v label) \<longrightarrow>
               (\<exists>t N. Normalize (MoveBlock v label d (Indices v label)) (GatherLabels initial) = Inr t
                      \<and> t \<in> dom g \<and> g v = Some N \<and> t \<in> N)) \<and>
           dom g = {s. Reachable (GatherLabels initial) init s}"
proof -
  let ?L = "GatherLabels initial"
  have bl: "blank \<notin> ?L" by (simp add: GatherLabels_eq)
  from GenerateGraph_run[OF assms] obtain init g where
    ig: "Normalize initial ?L = Inr init" "wf_state ?L init"
      "GenerateGraph initial = Some (Inr g)" "Run ?L init (g, {})" by blast
  have inv: "Inv ?L init (g, {})" using Run_Inv[OF ig(4) ig(2) bl] .
  have 1: "\<exists>t N. Normalize (MoveBlock v label d (Indices v label)) ?L = Inr t
                      \<and> t \<in> dom g \<and> g v = Some N \<and> t \<in> N"
    if v: "v \<in> dom g" and l: "label \<in> ?L" and c: "CanMove v label d (Indices v label)"
    for v label d
  proof -
    have "wf_state ?L v" using Run_final_Inv[OF ig(4) ig(2) bl] v by simp
    from Slide_Normalize_wf[OF this bl l, of d] obtain t where
      t: "Normalize (Slide v label d) ?L = Inr t" by blast
    then have "t \<in> Successors ?L v" using l c by (auto simp: Successors_def Feasible_def)
    moreover have "g v = Some (Successors ?L v)" "Successors ?L v \<subseteq> dom g"
      using inv v by (auto simp: Inv_def)
    ultimately show ?thesis using t by (auto simp: Slide_def)
  qed
  have 2: "dom g = {s. Reachable ?L init s}" using Inv_closed[OF inv] .
  from 1 2 ig show ?thesis by blast
qed

theorem graph_closure_witness:
  "length ex1 = 20 \<and> Normalize ex1 (GatherLabels ex1) = Inr ex1 \<and>
   GenerateGraph ex1 = Some (Inr ex_graph) \<and>
   ex1 \<in> dom ex_graph \<and> CHR ''a'' \<in> GatherLabels ex1 \<and>
   CanMove ex1 (CHR ''a'') BOTTOM (Indices ex1 (CHR ''a'')) \<and>
   Normalize (MoveBlock ex1 (CHR ''a'') BOTTOM (Indices ex1 (CHR ''a''))) (GatherLabels ex1) = Inr ex2 \<and>
   ex2 \<in> dom ex_graph \<and> ex_graph ex1 = Some {ex2} \<and>
   {s. Reachable (GatherLabels ex1) ex1 s} = {ex1, ex2}"
proof -
  from graph_closure[OF ex_length(1)] obtain init g where
    ig: "Normalize ex1 (GatherLabels ex1) = Inr init" "GenerateGraph ex1 = Some (Inr g)"
      "dom g = {s. Reachable (GatherLabels ex1) init s}" by blast
  have i: "init = ex1" using ig(1) by (simp add: ex_labels ex_Normalize)
  have g: "g = ex_graph" using ig(2) by (simp add: ex_GenerateGraph)
  have "dom ex_graph = {ex1, ex2}" by (auto simp: ex_graph_def)
  then have "{s. Reachable (GatherLabels ex1) ex1 s} = {ex1, ex2}" using ig(3) i g by simp
  then show ?thesis
    using ig(1,2) i g ex_length(1)
    by (simp add: ex_labels ex_CanMove1 ex_MoveBlock ex_Normalize ex_graph_def ex_neq)
qed

lemma Inv_neighbors:
  assumes "Inv labels init (g, ws)" "g v = Some N"
  shows "N = Successors labels v \<and> N \<subseteq> dom g \<union> ws"
proof -
  have "v \<in> dom g" using assms(2) by auto
  then have "g v = Some (Successors labels v) \<and> Successors labels v \<subseteq> dom g \<union> ws"
    using assms(1) unfolding Inv_def fst_conv snd_conv by blast
  then show ?thesis using assms(2) by simp
qed

text \<open>
  Claim C5 (move reversibility and edge symmetry). If \<open>A\<close> is a normalised state of 20
  cells over the label set and \<open>B\<close> is the normalised result of a feasible move of a
  block of \<open>A\<close> in direction \<open>D\<close>, then some block of \<open>B\<close> can move in the opposite
  direction and the normalised result is \<open>A\<close>. In the graph that GenerateGraph returns,
  \<open>B\<close> is a neighbour of \<open>A\<close> exactly if \<open>A\<close> is a neighbour of \<open>B\<close>, and every
  neighbour is a vertex.
\<close>

theorem move_reversibility:
  "(\<forall>labels A B label D.
       blank \<notin> labels \<and> length A = 20 \<and> GatherLabels A \<subseteq> labels \<and>
       Normalize A labels = Inr A \<and> label \<in> labels \<and>
       CanMove A label D (Indices A label) \<and>
       Normalize (MoveBlock A label D (Indices A label)) labels = Inr B \<longrightarrow>
       (\<exists>label'\<in>labels. CanMove B label' (Opposite D) (Indices B label') \<and>
           Normalize (MoveBlock B label' (Opposite D) (Indices B label')) labels = Inr A))
   \<and> (\<forall>initial g. length initial = 20 \<and> GenerateGraph initial = Some (Inr g) \<longrightarrow>
         (\<forall>A B NA NB. g A = Some NA \<and> g B = Some NB \<longrightarrow> (B \<in> NA \<longleftrightarrow> A \<in> NB)) \<and>
         (\<forall>A B NA. g A = Some NA \<and> B \<in> NA \<longrightarrow> (\<exists>NB. g B = Some NB \<and> A \<in> NB)))"
proof (rule conjI)
  show "\<forall>labels A B label D.
       blank \<notin> labels \<and> length A = 20 \<and> GatherLabels A \<subseteq> labels \<and>
       Normalize A labels = Inr A \<and> label \<in> labels \<and>
       CanMove A label D (Indices A label) \<and>
       Normalize (MoveBlock A label D (Indices A label)) labels = Inr B \<longrightarrow>
       (\<exists>label'\<in>labels. CanMove B label' (Opposite D) (Indices B label') \<and>
           Normalize (MoveBlock B label' (Opposite D) (Indices B label')) labels = Inr A)"
  proof (intro allI impI, elim conjE)
    fix labels :: Labels and A B :: State and label D
    assume "blank \<notin> labels" "length A = 20" "GatherLabels A \<subseteq> labels"
       "Normalize A labels = Inr A" "label \<in> labels"
       "CanMove A label D (Indices A label)"
       "Normalize (MoveBlock A label D (Indices A label)) labels = Inr B"
    then show "\<exists>label'\<in>labels. CanMove B label' (Opposite D) (Indices B label') \<and>
           Normalize (MoveBlock B label' (Opposite D) (Indices B label')) labels = Inr A"
      using move_reversible[of labels A label D B]
      by (simp add: wf_state_def Feasible_def Slide_def)
  qed
next
  show "\<forall>initial g. length initial = 20 \<and> GenerateGraph initial = Some (Inr g) \<longrightarrow>
         (\<forall>A B NA NB. g A = Some NA \<and> g B = Some NB \<longrightarrow> (B \<in> NA \<longleftrightarrow> A \<in> NB)) \<and>
         (\<forall>A B NA. g A = Some NA \<and> B \<in> NA \<longrightarrow> (\<exists>NB. g B = Some NB \<and> A \<in> NB))"
  proof (intro allI impI, elim conjE)
    fix initial :: State and g :: Graph
    assume len: "length initial = 20" and gg: "GenerateGraph initial = Some (Inr g)"
    let ?L = "GatherLabels initial"
    have bl: "blank \<notin> ?L" by (simp add: GatherLabels_eq)
    from GenerateGraph_run[OF len] gg obtain init where
      ig: "wf_state ?L init" "Run ?L init (g, {})" by auto
    have inv: "Inv ?L init (g, {})" using Run_Inv[OF ig(2) ig(1) bl] .
    have wf: "\<And>v. v \<in> dom g \<Longrightarrow> wf_state ?L v"
      using Run_final_Inv[OF ig(2) ig(1) bl] by simp
    have nb: "\<And>v N. g v = Some N \<Longrightarrow> N = Successors ?L v \<and> N \<subseteq> dom g"
      using Inv_neighbors[OF inv] by simp
    have sym: "\<exists>NB. g B = Some NB \<and> A \<in> NB" if "g A = Some NA" "B \<in> NA" for A B NA
    proof -
      have "B \<in> Successors ?L A" "B \<in> dom g" "A \<in> dom g" using nb[OF that(1)] that by auto
      then have "A \<in> Successors ?L B" using Successors_sym[OF wf bl] by blast
      moreover obtain NB where "g B = Some NB" using \<open>B \<in> dom g\<close> by auto
      ultimately show ?thesis using nb by auto
    qed
    have iff: "(B \<in> NA \<longleftrightarrow> A \<in> NB)" if "g A = Some NA" "g B = Some NB" for A B NA NB
      using sym[OF that(1), of B] sym[OF that(2), of A] that by auto
    show "(\<forall>A B NA NB. g A = Some NA \<and> g B = Some NB \<longrightarrow> (B \<in> NA \<longleftrightarrow> A \<in> NB)) \<and>
         (\<forall>A B NA. g A = Some NA \<and> B \<in> NA \<longrightarrow> (\<exists>NB. g B = Some NB \<and> A \<in> NB))"
    proof (intro conjI allI impI; elim conjE)
      fix A B NA NB assume "g A = Some NA" "g B = Some NB"
      then show "(B \<in> NA) = (A \<in> NB)" by (rule iff)
    next
      fix A B NA assume "g A = Some NA" "B \<in> NA"
      then show "\<exists>NB. g B = Some NB \<and> A \<in> NB" by (rule sym)
    qed
  qed
qed

theorem move_reversibility_witness:
  "blank \<notin> {CHR ''a''} \<and> length ex1 = 20 \<and> GatherLabels ex1 \<subseteq> {CHR ''a''} \<and>
   Normalize ex1 {CHR ''a''} = Inr ex1 \<and> CHR ''a'' \<in> {CHR ''a''} \<and>
   CanMove ex1 (CHR ''a'') BOTTOM (Indices ex1 (CHR ''a'')) \<and>
   Normalize (MoveBlock ex1 (CHR ''a'') BOTTOM (Indices ex1 (CHR ''a''))) {CHR ''a''} = Inr ex2 \<and>
   (\<exists>label'\<in>{CHR ''a''}. CanMove ex2 label' (Opposite BOTTOM) (Indices ex2 label') \<and>
       Normalize (MoveBlock ex2 label' (Opposite BOTTOM) (Indices ex2 label')) {CHR ''a''} = Inr ex1) \<and>
   GenerateGraph ex1 = Some (Inr ex_graph) \<and>
   ex_graph ex1 = Some {ex2} \<and> ex_graph ex2 = Some {ex1} \<and>
   (ex2 \<in> {ex2}) = (ex1 \<in> {ex1})"
proof -
  have h: "blank \<notin> {CHR ''a''} \<and> length ex1 = 20 \<and> GatherLabels ex1 \<subseteq> {CHR ''a''} \<and>
   Normalize ex1 {CHR ''a''} = Inr ex1 \<and> CHR ''a'' \<in> {CHR ''a''} \<and>
   CanMove ex1 (CHR ''a'') BOTTOM (Indices ex1 (CHR ''a'')) \<and>
   Normalize (MoveBlock ex1 (CHR ''a'') BOTTOM (Indices ex1 (CHR ''a''))) {CHR ''a''} = Inr ex2"
    by (simp add: ex_length ex_labels ex_Normalize ex_CanMove1 ex_MoveBlock)
  have 1: "\<exists>label'\<in>{CHR ''a''}. CanMove ex2 label' (Opposite BOTTOM) (Indices ex2 label') \<and>
       Normalize (MoveBlock ex2 label' (Opposite BOTTOM) (Indices ex2 label')) {CHR ''a''} = Inr ex1"
    using move_reversibility[THEN conjunct1, rule_format, OF h] .
  have g: "ex_graph ex1 = Some {ex2}" "ex_graph ex2 = Some {ex1}"
    by (simp_all add: ex_graph_def ex_neq)
  have 2: "(ex2 \<in> {ex2}) = (ex1 \<in> {ex1})"
    using move_reversibility[THEN conjunct2, rule_format, of ex1 ex_graph, THEN conjunct1,
        rule_format, of ex1 "{ex2}" ex2 "{ex1}"] ex_length(1) ex_GenerateGraph g
    by blast
  from h 1 2 g ex_GenerateGraph show ?thesis by blast
qed

section \<open>Solve and Print: the breadth-first search and the path\<close>

lemma foldE_Solve_seed:
  assumes "distinct vs" "set vs \<inter> dom sol = {}"
  shows "foldE Solve_seed vs (sol, q) =
           Inr (\<lambda>v. if v \<in> set vs \<and> IsSolved v then Some v else sol v, q @ filter IsSolved vs)"
  using assms
proof (induction vs arbitrary: sol q)
  case Nil
  then show ?case by simp
next
  case (Cons a vs)
  have d: "distinct vs" "a \<notin> set vs" "set vs \<inter> dom sol = {}" "a \<notin> dom sol"
    using Cons.prems by auto
  show ?case
  proof (cases "IsSolved a")
    case False
    have step: "foldE Solve_seed (a # vs) (sol, q) = foldE Solve_seed vs (sol, q)"
      using False by (simp add: Solve_seed_def)
    have fn: "(\<lambda>v. if v \<in> set vs \<and> IsSolved v then Some v else sol v)
            = (\<lambda>v. if v \<in> set (a # vs) \<and> IsSolved v then Some v else sol v)"
      using False by (intro ext) auto
    have fl: "filter IsSolved (a # vs) = filter IsSolved vs" using False by simp
    show ?thesis using Cons.IH[OF d(1,3), of q] by (simp only: step fl fn)
  next
    case True
    have step: "foldE Solve_seed (a # vs) (sol, q) = foldE Solve_seed vs (sol(a \<mapsto> a), q @ [a])"
      using True d(4) by (simp add: Solve_seed_def)
    have d': "set vs \<inter> dom (sol(a \<mapsto> a)) = {}" using d(2,3) by auto
    have fn: "(\<lambda>v. if v \<in> set vs \<and> IsSolved v then Some v else (sol(a \<mapsto> a)) v)
            = (\<lambda>v. if v \<in> set (a # vs) \<and> IsSolved v then Some v else sol v)"
      using True by (intro ext) auto
    have fl: "(q @ [a]) @ filter IsSolved vs = q @ filter IsSolved (a # vs)" using True by simp
    show ?thesis using Cons.IH[OF d(1) d', of "q @ [a]"] by (simp only: step fn fl)
  qed
qed

lemma fold_Solve_visit:
  assumes "distinct ns"
  shows "fold (Solve_visit u) ns (sol, q) =
           (\<lambda>x. if x \<in> set ns - dom sol then Some u else sol x,
            q @ filter (\<lambda>x. x \<notin> dom sol) ns)"
  using assms
proof (induction ns arbitrary: sol q)
  case Nil
  then show ?case by simp
next
  case (Cons a ns)
  have d: "distinct ns" "a \<notin> set ns" using Cons.prems by auto
  show ?case
  proof (cases "a \<in> dom sol")
    case True
    have step: "fold (Solve_visit u) (a # ns) (sol, q) = fold (Solve_visit u) ns (sol, q)"
      using True by (simp add: Solve_visit_def)
    have fn: "(\<lambda>x. if x \<in> set ns - dom sol then Some u else sol x)
            = (\<lambda>x. if x \<in> set (a # ns) - dom sol then Some u else sol x)"
      using True by (intro ext) auto
    have fl: "filter (\<lambda>x. x \<notin> dom sol) (a # ns) = filter (\<lambda>x. x \<notin> dom sol) ns"
      using True by simp
    show ?thesis using Cons.IH[OF d(1), of sol q] by (simp only: step fl fn)
  next
    case False
    let ?sol = "sol(a \<mapsto> u)"
    have step: "fold (Solve_visit u) (a # ns) (sol, q) = fold (Solve_visit u) ns (?sol, q @ [a])"
      using False by (simp add: Solve_visit_def)
    have fl0: "filter (\<lambda>x. x \<notin> dom ?sol) ns = filter (\<lambda>x. x \<notin> dom sol) ns"
      using d(2) by (intro filter_cong) auto
    have fn: "(\<lambda>x. if x \<in> set ns - dom ?sol then Some u else ?sol x)
            = (\<lambda>x. if x \<in> set (a # ns) - dom sol then Some u else sol x)"
      using False by (intro ext) auto
    have fl: "(q @ [a]) @ filter (\<lambda>x. x \<notin> dom sol) ns = q @ filter (\<lambda>x. x \<notin> dom sol) (a # ns)"
      using False by simp
    show ?thesis using Cons.IH[OF d(1), of ?sol "q @ [a]"] by (simp only: step fn fl fl0)
  qed
qed

lemma Steps_agree:
  assumes "Steps sol v n" "\<And>x. x \<in> dom sol \<Longrightarrow> sol' x = sol x"
  shows "Steps sol' v n"
  using assms(1)
proof (induction rule: Steps.induct)
  case (here v)
  then have "sol' v = Some v" using assms(2)[of v] by auto
  then show ?case by (rule Steps.here)
next
  case (hop v w n)
  then have "sol' v = Some w" using assms(2)[of v] by auto
  then show ?case using hop by (intro Steps.hop)
qed

lemma MinDist_unique: "MinDist g v n \<Longrightarrow> MinDist g v m \<Longrightarrow> n = m"
  by (auto simp: MinDist_def intro: le_antisym)

inductive_simps Steps_0: "Steps sol v 0"

inductive_simps Steps_Suc: "Steps sol v (Suc n)"

lemma Steps_unique: "Steps sol v n \<Longrightarrow> Steps sol v m \<Longrightarrow> n = m"
proof (induction n arbitrary: v m)
  case 0
  then show ?case by (cases m) (auto simp: Steps_0 Steps_Suc)
next
  case (Suc n)
  then obtain w where w: "sol v = Some w" "w \<noteq> v" "Steps sol w n" by (auto simp: Steps_Suc)
  show ?case
  proof (cases m)
    case 0
    then show ?thesis using Suc.prems(2) w by (simp add: Steps_0)
  next
    case (Suc m')
    then have "Steps sol w m'" using Suc.prems(2) w by (auto simp: Steps_Suc)
    then show ?thesis using Suc.IH[OF w(3)] \<open>m = Suc m'\<close> by simp
  qed
qed

lemma FromGoal_Suc:
  "FromGoal g (Suc n) x \<longleftrightarrow> (\<exists>p. FromGoal g n p \<and> Edge g p x)"
proof
  assume "FromGoal g (Suc n) x"
  then obtain t where t: "t \<in> dom g" "IsSolved t" "Walk g t (Suc n) x"
    by (auto simp: FromGoal_def)
  from t(3) obtain p where "Walk g t n p" "Edge g p x" by (cases rule: Walk.cases) auto
  then show "\<exists>p. FromGoal g n p \<and> Edge g p x" using t(1,2) by (auto simp: FromGoal_def)
next
  assume "\<exists>p. FromGoal g n p \<and> Edge g p x"
  then show "FromGoal g (Suc n) x" by (auto simp: FromGoal_def intro: Walk.move)
qed

lemma FromGoal_0: "FromGoal g 0 x \<longleftrightarrow> x \<in> dom g \<and> IsSolved x"
proof
  assume "FromGoal g 0 x"
  then obtain t where t: "t \<in> dom g" "IsSolved t" "Walk g t 0 x" by (auto simp: FromGoal_def)
  from t(3) have "x = t" by (cases rule: Walk.cases) auto
  then show "x \<in> dom g \<and> IsSolved x" using t by simp
next
  assume "x \<in> dom g \<and> IsSolved x"
  then show "FromGoal g 0 x" by (auto simp: FromGoal_def intro: Walk.stay)
qed

lemma SolveInv_step:
  assumes ok: "graph_ok g" and inv: "SolveInv g (sol, u # rest)" and gu: "g u = Some N"
  defines "sol' \<equiv> (\<lambda>x. if x \<in> N - dom sol then Some u else sol x)"
    and "new \<equiv> filter (\<lambda>x. x \<notin> dom sol) (sorted_list_of_set N)"
  shows "SolveInv g (sol', rest @ new)"
proof -
  have i1: "set (u # rest) \<subseteq> dom sol" "dom sol \<subseteq> dom g"
    and i2: "\<forall>v\<in>dom g. IsSolved v \<longrightarrow> sol v = Some v"
    and i3: "\<forall>v w. sol v = Some w \<longrightarrow>
        (w = v \<and> IsSolved v) \<or> (w \<noteq> v \<and> \<not> IsSolved v \<and> Edge g w v)"
    and i4: "\<forall>v\<in>dom sol. \<exists>n. Steps sol v n \<and> MinDist g v n"
    and i5: "\<forall>v\<in>dom sol - set (u # rest). \<forall>w. Edge g v w \<longrightarrow> w \<in> dom sol"
    and i6: "\<exists>k q1 q2. u # rest = q1 @ q2 \<and> q1 \<noteq> [] \<and>
         (\<forall>x\<in>set q1. MinDist g x k) \<and> (\<forall>x\<in>set q2. MinDist g x (Suc k)) \<and>
         (\<forall>x m. m \<le> k \<and> FromGoal g m x \<longrightarrow> x \<in> dom sol)"
    using inv unfolding SolveInv_def fst_conv snd_conv by simp_all
  from i6 obtain k q1 q2 where
    q: "u # rest = q1 @ q2" "q1 \<noteq> []"
      and q1d: "\<forall>x\<in>set q1. MinDist g x k" and q2d: "\<forall>x\<in>set q2. MinDist g x (Suc k)"
      and d1: "\<forall>x m. m \<le> k \<and> FromGoal g m x \<longrightarrow> x \<in> dom sol"
    by blast
  from q obtain q1' where q1': "q1 = u # q1'" "rest = q1' @ q2"
    by (cases q1) auto
  have uk: "MinDist g u k" using q1d q1'(1) by simp
  have finN: "finite N" "N \<subseteq> dom g" using ok gu by (auto simp: graph_ok_def)
  have snew: "set new = N - dom sol" using finN(1) by (auto simp: new_def)
  have agree: "\<And>x. x \<in> dom sol \<Longrightarrow> sol' x = sol x" by (simp add: sol'_def)
  have dom': "dom sol' = dom sol \<union> N" by (auto simp: sol'_def split: if_splits)
  have udom: "u \<in> dom sol" using i1(1) by simp
  have newdist: "MinDist g w (Suc k)" if w: "w \<in> N - dom sol" for w
  proof -
    have "Edge g u w" using gu w by (auto simp: Edge_def)
    moreover have "FromGoal g k u" using uk by (simp add: MinDist_def)
    ultimately have "FromGoal g (Suc k) w" using FromGoal_Suc by blast
    moreover have "Suc k \<le> m" if "FromGoal g m w" for m
    proof (rule ccontr)
      assume "\<not> Suc k \<le> m"
      then have "m \<le> k" by simp
      then have "w \<in> dom sol" using d1 that by blast
      then show False using w by simp
    qed
    ultimately show ?thesis by (simp add: MinDist_def)
  qed
  obtain n where "Steps sol u n" "MinDist g u n" using i4 udom by blast
  then have "Steps sol u k" using MinDist_unique[OF uk] by auto
  then have su: "Steps sol' u k" using Steps_agree agree by blast
  have j1: "set (rest @ new) \<subseteq> dom sol'" "dom sol' \<subseteq> dom g"
    using i1 snew dom' finN(2) by auto
  have j2: "\<forall>v\<in>dom g. IsSolved v \<longrightarrow> sol' v = Some v"
  proof (intro ballI impI)
    fix v assume "v \<in> dom g" "IsSolved v"
    then have "sol v = Some v" using i2 by blast
    then show "sol' v = Some v" using agree[of v] by auto
  qed
  have j3: "\<forall>v w. sol' v = Some w \<longrightarrow>
        (w = v \<and> IsSolved v) \<or> (w \<noteq> v \<and> \<not> IsSolved v \<and> Edge g w v)"
  proof (intro allI impI)
    fix v w assume vw: "sol' v = Some w"
    show "(w = v \<and> IsSolved v) \<or> (w \<noteq> v \<and> \<not> IsSolved v \<and> Edge g w v)"
    proof (cases "v \<in> N - dom sol")
      case True
      then have "w = u" using vw by (simp add: sol'_def)
      moreover have "u \<noteq> v" using True udom by auto
      moreover have "\<not> IsSolved v"
      proof
        assume "IsSolved v"
        then have "sol v = Some v" using i2 True finN(2) by blast
        then show False using True by auto
      qed
      moreover have "Edge g u v" using gu True by (auto simp: Edge_def)
      ultimately show ?thesis by simp
    next
      case False
      then have "sol v = Some w" using vw by (auto simp: sol'_def split: if_splits)
      then show ?thesis using i3 by blast
    qed
  qed
  have j4: "\<forall>v\<in>dom sol'. \<exists>n. Steps sol' v n \<and> MinDist g v n"
  proof
    fix v assume "v \<in> dom sol'"
    then consider "v \<in> dom sol" | "v \<in> N - dom sol" using dom' by auto
    then show "\<exists>n. Steps sol' v n \<and> MinDist g v n"
    proof cases
      case 1
      then obtain n where "Steps sol v n" "MinDist g v n" using i4 by blast
      then show ?thesis using Steps_agree agree by blast
    next
      case 2
      then have "sol' v = Some u" "u \<noteq> v" using udom by (auto simp: sol'_def)
      then have "Steps sol' v (Suc k)" using su by (intro Steps.hop)
      then show ?thesis using newdist[OF 2] by blast
    qed
  qed
  have j5: "\<forall>v\<in>dom sol' - set (rest @ new). \<forall>w. Edge g v w \<longrightarrow> w \<in> dom sol'"
  proof (intro ballI allI impI)
    fix v w assume v: "v \<in> dom sol' - set (rest @ new)" and e: "Edge g v w"
    then have vd: "v \<in> dom sol" "v \<notin> set rest" using dom' snew by auto
    show "w \<in> dom sol'"
    proof (cases "v = u")
      case True
      then have "w \<in> N" using e gu by (simp add: Edge_def)
      then show ?thesis using dom' by simp
    next
      case False
      then have "v \<in> dom sol - set (u # rest)" using vd by simp
      then have "w \<in> dom sol" using i5 e by blast
      then show ?thesis using dom' by simp
    qed
  qed
  have j6: "rest @ new = [] \<or>
      (\<exists>k q1 q2. rest @ new = q1 @ q2 \<and> q1 \<noteq> [] \<and>
         (\<forall>x\<in>set q1. MinDist g x k) \<and> (\<forall>x\<in>set q2. MinDist g x (Suc k)) \<and>
         (\<forall>x m. m \<le> k \<and> FromGoal g m x \<longrightarrow> x \<in> dom sol'))"
  proof (cases "q1' = []")
    case False
    have "rest @ new = q1' @ (q2 @ new)" using q1'(2) by simp
    moreover have "\<forall>x\<in>set q1'. MinDist g x k" using q1d q1'(1) by simp
    moreover have "\<forall>x\<in>set (q2 @ new). MinDist g x (Suc k)"
      using q2d newdist snew by auto
    moreover have "\<forall>x m. m \<le> k \<and> FromGoal g m x \<longrightarrow> x \<in> dom sol'"
      using d1 dom' by blast
    ultimately show ?thesis using False by blast
  next
    case True
    show ?thesis
    proof (cases "rest @ new = []")
      case True
      then show ?thesis by simp
    next
      case ne: False
      have all: "\<forall>x\<in>set (rest @ new). MinDist g x (Suc k)"
        using q2d newdist snew q1'(2) True by auto
      have "x \<in> dom sol'" if mk: "m \<le> Suc k" and fg: "FromGoal g m x" for x m
      proof (cases "m \<le> k")
        case True
        then show ?thesis using d1 fg dom' by blast
      next
        case False
        then have "m = Suc k" using mk by simp
        then obtain p where p: "FromGoal g k p" "Edge g p x"
          using fg FromGoal_Suc by blast
        then have pd: "p \<in> dom sol" using d1 by blast
        have "p \<notin> set (rest @ new)"
        proof
          assume "p \<in> set (rest @ new)"
          then have "MinDist g p (Suc k)" using all by blast
          then have "Suc k \<le> k" using p(1) by (simp add: MinDist_def)
          then show False by simp
        qed
        then have "p \<in> dom sol' - set (rest @ new)" using pd dom' by simp
        then show ?thesis using j5 p(2) by blast
      qed
      then have "\<forall>x m. m \<le> Suc k \<and> FromGoal g m x \<longrightarrow> x \<in> dom sol'" by blast
      moreover have "rest @ new = (rest @ new) @ []" by simp
      moreover have "\<forall>x\<in>set ([] :: State list). MinDist g x (Suc (Suc k))" by simp
      ultimately show ?thesis using ne all by blast
    qed
  qed
  show ?thesis
    unfolding SolveInv_def fst_conv snd_conv
    using j1 j2 j3 j4 j5 j6 by (intro conjI)
qed

lemma Solve_seeds:
  assumes "graph_ok g"
  shows "\<exists>sq. foldE Solve_seed (sorted_list_of_set (dom g)) (Map.empty, []) = Inr sq \<and>
           SolveInv g sq"
proof -
  let ?vs = "sorted_list_of_set (dom g)"
  let ?sol = "\<lambda>v. if v \<in> set ?vs \<and> IsSolved v then Some v else (Map.empty :: Solution) v"
  let ?q = "[] @ filter IsSolved ?vs"
  have fin: "finite (dom g)" using assms by (simp add: graph_ok_def)
  have sv: "set ?vs = dom g" using fin by simp
  have e: "foldE Solve_seed ?vs (Map.empty, []) = Inr (?sol, ?q)"
    by (rule foldE_Solve_seed) simp_all
  have ds: "dom ?sol = {v \<in> dom g. IsSolved v}" using sv by (auto split: if_splits)
  have sq: "set ?q = {v \<in> dom g. IsSolved v}" using sv by auto
  have j1: "set ?q \<subseteq> dom ?sol" "dom ?sol \<subseteq> dom g" using ds sq by auto
  have j2: "\<forall>v\<in>dom g. IsSolved v \<longrightarrow> ?sol v = Some v" using sv by simp
  have j3: "\<forall>v w. ?sol v = Some w \<longrightarrow>
        (w = v \<and> IsSolved v) \<or> (w \<noteq> v \<and> \<not> IsSolved v \<and> Edge g w v)"
    by (auto split: if_splits)
  have m0: "MinDist g v 0" if "v \<in> dom g" "IsSolved v" for v
    using that by (simp add: MinDist_def FromGoal_0)
  have j4: "\<forall>v\<in>dom ?sol. \<exists>n. Steps ?sol v n \<and> MinDist g v n"
  proof
    fix v assume "v \<in> dom ?sol"
    then have v: "v \<in> dom g" "IsSolved v" using ds by auto
    then have "?sol v = Some v" using sv by simp
    then have "Steps ?sol v 0" by (rule Steps.here)
    then show "\<exists>n. Steps ?sol v n \<and> MinDist g v n" using m0[OF v] by blast
  qed
  have j5: "\<forall>v\<in>dom ?sol - set ?q. \<forall>w. Edge g v w \<longrightarrow> w \<in> dom ?sol"
    using ds sq by blast
  have j6: "?q = [] \<or>
      (\<exists>k q1 q2. ?q = q1 @ q2 \<and> q1 \<noteq> [] \<and>
         (\<forall>x\<in>set q1. MinDist g x k) \<and> (\<forall>x\<in>set q2. MinDist g x (Suc k)) \<and>
         (\<forall>x m. m \<le> k \<and> FromGoal g m x \<longrightarrow> x \<in> dom ?sol))"
  proof (cases "?q = []")
    case True
    then show ?thesis by blast
  next
    case False
    have "?q = ?q @ []" by simp
    moreover have "\<forall>x\<in>set ?q. MinDist g x 0" using m0 sq by blast
    moreover have "\<forall>x\<in>set ([] :: State list). MinDist g x (Suc 0)" by simp
    moreover have "\<forall>x m. m \<le> 0 \<and> FromGoal g m x \<longrightarrow> x \<in> dom ?sol"
      using ds by (auto simp: FromGoal_0)
    ultimately show ?thesis using False by blast
  qed
  have "SolveInv g (?sol, ?q)"
    unfolding SolveInv_def fst_conv snd_conv
    using j1 j2 j3 j4 j5 j6 by (intro conjI)
  then show ?thesis using e by blast
qed

lemma Solve_loop_total:
  assumes ok: "graph_ok g"
  shows "SolveInv g sq \<Longrightarrow> \<exists>sol. Solve_loop g sq = Some (Inr sol) \<and> SolveInv g (sol, [])"
proof (induction "2 * card (dom g - dom (fst sq)) + length (snd sq)" arbitrary: sq rule: less_induct)
  case less
  obtain sol q where sq: "sq = (sol, q)" by (cases sq)
  show ?case
  proof (cases q)
    case Nil
    then have "Solve_loop g sq = Some (Inr sol)"
      using sq by (subst Solve_loop.simps) simp
    then show ?thesis using less.prems sq Nil by simp
  next
    case (Cons u rest)
    have inv: "SolveInv g (sol, u # rest)" using less.prems sq Cons by simp
    then have "u \<in> dom g" unfolding SolveInv_def fst_conv snd_conv by auto
    then obtain N where gu: "g u = Some N" by auto
    have finN: "finite N" "N \<subseteq> dom g" using ok gu by (auto simp: graph_ok_def)
    let ?sol = "\<lambda>x. if x \<in> N - dom sol then Some u else sol x"
    let ?new = "filter (\<lambda>x. x \<notin> dom sol) (sorted_list_of_set N)"
    have inv': "SolveInv g (?sol, rest @ ?new)" using SolveInv_step[OF ok inv gu] .
    have fd: "fold (Solve_visit u) (sorted_list_of_set N) (sol, u # rest)
        = (?sol, (u # rest) @ ?new)"
      using fold_Solve_visit[of "sorted_list_of_set N" u sol "u # rest"] finN(1) by simp
    have unfold: "Solve_loop g sq = Solve_loop g (?sol, rest @ ?new)"
      using sq Cons gu fd by (subst Solve_loop.simps) simp
    have fin: "finite (dom g)" using ok by (simp add: graph_ok_def)
    have dom': "dom ?sol = dom sol \<union> N" by (auto split: if_splits)
    have snew: "set ?new = N - dom sol" "distinct ?new" using finN(1) by auto
    have ln: "length ?new = card (N - dom sol)"
      using distinct_card[OF snew(2)] snew(1) by simp
    have "dom g - dom sol = (dom g - dom ?sol) \<union> (N - dom sol)"
      "(dom g - dom ?sol) \<inter> (N - dom sol) = {}"
      using dom' finN(2) by auto
    then have "card (dom g - dom sol) = card (dom g - dom ?sol) + card (N - dom sol)"
      using card_Un_disjoint[of "dom g - dom ?sol" "N - dom sol"] fin finN(1) by simp
    then have "2 * card (dom g - dom (fst (?sol, rest @ ?new))) + length (snd (?sol, rest @ ?new))
        < 2 * card (dom g - dom (fst sq)) + length (snd sq)"
      using ln sq Cons by simp
    from less.hyps[OF this inv'] show ?thesis using unfold by simp
  qed
qed

lemma Solve_result:
  assumes ok: "graph_ok g"
  shows "\<exists>sol. SolveInv g (sol, []) \<and>
           Solve g = (if card (dom sol) = card (dom g) then Some (Inr sol)
                      else Some (Inl AssertionFailed))"
proof -
  from Solve_seeds[OF ok] obtain sq where
    sq: "foldE Solve_seed (sorted_list_of_set (dom g)) (Map.empty, []) = Inr sq" "SolveInv g sq"
    by blast
  from Solve_loop_total[OF ok sq(2)] obtain sol where
    sol: "Solve_loop g sq = Some (Inr sol)" "SolveInv g (sol, [])" by blast
  have "Solve g = (if card (dom sol) = card (dom g) then Some (Inr sol)
                      else Some (Inl AssertionFailed))"
    using sq(1) sol(1) by (simp add: Solve_def)
  then show ?thesis using sol(2) by blast
qed

lemma SolveInv_parent:
  assumes "SolveInv g (sol, q)" "sol v = Some w"
  shows "(w = v \<and> IsSolved v) \<or> (w \<noteq> v \<and> \<not> IsSolved v \<and> Edge g w v)"
  using assms unfolding SolveInv_def fst_conv by blast

lemma SolveInv_level:
  assumes "SolveInv g (sol, q)" "v \<in> dom sol"
  shows "\<exists>n. Steps sol v n \<and> MinDist g v n"
  using assms unfolding SolveInv_def fst_conv by blast

lemma Walk_prepend: "Walk g w n v \<Longrightarrow> Edge g u w \<Longrightarrow> Walk g u (Suc n) v"
proof (induction rule: Walk.induct)
  case stay
  then show ?case using Walk.move[OF Walk.stay] by blast
next
  case (move n v x)
  then show ?case using Walk.move by blast
qed

lemma Walk_sym:
  assumes "\<And>a b. Edge g a b \<Longrightarrow> Edge g b a"
  shows "Walk g u n v \<Longrightarrow> Walk g v n u"
proof (induction rule: Walk.induct)
  case stay
  then show ?case by (rule Walk.stay)
next
  case (move n v w)
  then show ?case using Walk_prepend assms by blast
qed

lemma Walk_trans: "Walk g v m w \<Longrightarrow> Walk g u n v \<Longrightarrow> Walk g u (n + m) w"
proof (induction rule: Walk.induct)
  case stay
  then show ?case by simp
next
  case (move m x y)
  then show ?case using Walk.move[of g u "n + m" x y] by simp
qed

lemma SolveInv_closed:
  assumes "SolveInv g (sol, [])"
  shows "FromGoal g n v \<Longrightarrow> v \<in> dom sol"
proof (induction n arbitrary: v)
  case 0
  then have "v \<in> dom g" "IsSolved v" by (simp_all add: FromGoal_0)
  then have "sol v = Some v" using assms unfolding SolveInv_def fst_conv by blast
  then show ?case by auto
next
  case (Suc n)
  then obtain p where p: "FromGoal g n p" "Edge g p v" using FromGoal_Suc by blast
  then have "p \<in> dom sol" using Suc.IH by blast
  then have "p \<in> dom sol - set []" by simp
  then show ?case using assms p(2) unfolding SolveInv_def fst_conv snd_conv by blast
qed

lemma SolveInv_goal_exists:
  assumes "SolveInv g (sol, [])" "v \<in> dom sol"
  shows "\<exists>t\<in>dom g. IsSolved t"
proof -
  from SolveInv_level[OF assms] obtain n where "MinDist g v n" by blast
  then show ?thesis by (auto simp: MinDist_def FromGoal_def)
qed

text \<open>What the later stages use of the graph that GenerateGraph returns.\<close>

lemma GenerateGraph_graph:
  assumes len: "length initial = 20" and gg: "GenerateGraph initial = Some (Inr g)"
  shows "graph_ok g"
    and "\<And>a b. Edge g a b \<Longrightarrow> Edge g b a"
    and "\<exists>init. Normalize initial (GatherLabels initial) = Inr init \<and> init \<in> dom g \<and>
           (\<forall>v\<in>dom g. \<exists>n. Walk g init n v)"
    and "\<And>v. v \<in> dom g \<Longrightarrow> length v = 20 \<and> Normalize v (GatherLabels initial) = Inr v"
proof -
  let ?L = "GatherLabels initial"
  have bl: "blank \<notin> ?L" by (simp add: GatherLabels_eq)
  from GenerateGraph_run[OF len] gg obtain init where
    ig: "Normalize initial ?L = Inr init" "wf_state ?L init" "Run ?L init (g, {})" by auto
  have inv: "Inv ?L init (g, {})" using Run_Inv[OF ig(3) ig(2) bl] .
  have wf: "\<And>v. v \<in> dom g \<Longrightarrow> wf_state ?L v"
    using Run_final_Inv[OF ig(3) ig(2) bl] by simp
  have nb: "\<And>v N. g v = Some N \<Longrightarrow> N = Successors ?L v \<and> N \<subseteq> dom g"
    using Inv_neighbors[OF inv] by simp
  have "dom g \<subseteq> {v. length v = 20}" using wf by (auto simp: wf_state_def)
  then have "finite (dom g)" using finite_states by (rule finite_subset)
  moreover have "finite N \<and> N \<subseteq> dom g" if "g v = Some N" for v N
    using nb[OF that] finite_Successors[of ?L v] by auto
  ultimately show "graph_ok g" unfolding graph_ok_def by blast
  show sym: "Edge g b a" if "Edge g a b" for a b
  proof -
    from that obtain N where N: "g a = Some N" "b \<in> N" by (auto simp: Edge_def)
    then have "b \<in> Successors ?L a" "b \<in> dom g" "a \<in> dom g" using nb by auto
    then have "a \<in> Successors ?L b" using Successors_sym[OF wf bl] by blast
    moreover obtain M where "g b = Some M" using \<open>b \<in> dom g\<close> by auto
    ultimately show ?thesis using nb by (auto simp: Edge_def)
  qed
  have dg: "dom g = {s. Reachable ?L init s}" using Inv_closed[OF inv] .
  have "\<exists>n. Walk g init n v" if "Reachable ?L init v" for v
    using that
  proof (induction rule: Reachable.induct)
    case start
    then show ?case using Walk.stay by blast
  next
    case (step s t)
    then obtain n where n: "Walk g init n s" by blast
    have "s \<in> dom g" using step(1) dg by simp
    then obtain N where "g s = Some N" by auto
    then have "Edge g s t" using nb step(2) by (auto simp: Edge_def)
    then show ?case using Walk.move[OF n] by blast
  qed
  moreover have "init \<in> dom g" using dg Reachable.start by blast
  ultimately show "\<exists>init. Normalize initial ?L = Inr init \<and> init \<in> dom g \<and>
           (\<forall>v\<in>dom g. \<exists>n. Walk g init n v)"
    using ig(1) dg by blast
  show "\<And>v. v \<in> dom g \<Longrightarrow> length v = 20 \<and> Normalize v ?L = Inr v"
    using wf by (simp add: wf_state_def)
qed

lemma Solve_generated:
  assumes len: "length initial = 20" and gg: "GenerateGraph initial = Some (Inr g)"
  shows "(\<exists>t\<in>dom g. IsSolved t) \<Longrightarrow>
            \<exists>sol. Solve g = Some (Inr sol) \<and> dom sol = dom g \<and> SolveInv g (sol, [])"
    and "\<not> (\<exists>t\<in>dom g. IsSolved t) \<Longrightarrow> Solve g = Some (Inl AssertionFailed)"
proof -
  note G = GenerateGraph_graph[OF len gg]
  from Solve_result[OF G(1)] obtain sol where
    sol: "SolveInv g (sol, [])"
      "Solve g = (if card (dom sol) = card (dom g) then Some (Inr sol)
                      else Some (Inl AssertionFailed))" by blast
  have sub: "dom sol \<subseteq> dom g" using sol(1) unfolding SolveInv_def fst_conv by blast
  from G(3) obtain init where init: "init \<in> dom g" "\<forall>v\<in>dom g. \<exists>n. Walk g init n v" by blast
  have fin: "finite (dom g)" using G(1) by (simp add: graph_ok_def)
  show "\<exists>sol. Solve g = Some (Inr sol) \<and> dom sol = dom g \<and> SolveInv g (sol, [])"
    if "\<exists>t\<in>dom g. IsSolved t"
  proof -
    from that obtain t where t: "t \<in> dom g" "IsSolved t" by blast
    then obtain n where "Walk g init n t" using init(2) by blast
    then have ti: "Walk g t n init" using Walk_sym[of g] G(2) by blast
    have "v \<in> dom sol" if "v \<in> dom g" for v
    proof -
      from that obtain m where "Walk g init m v" using init(2) by blast
      then have "Walk g t (n + m) v" using Walk_trans ti by blast
      then have "FromGoal g (n + m) v" using t by (auto simp: FromGoal_def)
      then show ?thesis using SolveInv_closed[OF sol(1)] by blast
    qed
    then have "dom sol = dom g" using sub by blast
    then show ?thesis using sol by auto
  qed
  show "Solve g = Some (Inl AssertionFailed)" if "\<not> (\<exists>t\<in>dom g. IsSolved t)"
  proof -
    have "dom sol = {}" using SolveInv_goal_exists[OF sol(1)] that by blast
    moreover have "card (dom g) \<noteq> 0" using init(1) fin by auto
    ultimately show ?thesis using sol(2) by simp
  qed
qed

lemma Steps_Follow:
  assumes par: "\<And>a b. solution a = Some b \<Longrightarrow> b \<noteq> a \<Longrightarrow> Edge g a b"
  shows "Steps solution v n \<Longrightarrow>
    \<exists>t. Follow solution n v = Some t \<and> solution t = Some t \<and> Walk g v n t \<and>
        (\<forall>k<n. \<forall>u. Follow solution k v = Some u \<longrightarrow> solution u \<noteq> Some u)"
proof (induction rule: Steps.induct)
  case (here v)
  then show ?case using Walk.stay by auto
next
  case (hop v w n)
  then obtain t where t: "Follow solution n w = Some t" "solution t = Some t" "Walk g w n t"
    "\<forall>k<n. \<forall>u. Follow solution k w = Some u \<longrightarrow> solution u \<noteq> Some u" by blast
  have 1: "Follow solution (Suc n) v = Some t" using hop(1) t(1) by simp
  have 2: "Walk g v (Suc n) t" using Walk_prepend[OF t(3)] par[OF hop(1,2)] by blast
  have 3: "solution u \<noteq> Some u" if "k < Suc n" "Follow solution k v = Some u" for k u
  proof (cases k)
    case 0
    then show ?thesis using that(2) hop(1,2) by auto
  next
    case (Suc k')
    then show ?thesis using that hop(1) t(4) by auto
  qed
  from 1 2 3 t(2) show ?case by blast
qed

lemma Print_loop_Steps:
  assumes closed: "\<And>a b. solution a = Some b \<Longrightarrow> b \<in> dom solution"
  shows "Steps solution v n \<Longrightarrow> solution v = Some w \<Longrightarrow>
    \<exists>ch. Print_loop solution v w out = Some (Inr (out @ ch)) \<and> length ch = n"
proof (induction arbitrary: w out rule: Steps.induct)
  case (here v)
  then have "Print_loop solution v w out = Some (Inr out)"
    by (subst Print_loop.simps) simp
  then show ?case by simp
next
  case (hop v w' n)
  then have w: "w = w'" "v \<noteq> w" by auto
  obtain nxt where nxt: "solution w = Some nxt" using closed[OF hop.prems] by auto
  from hop.IH[of nxt "out @ [w]"] nxt w(1) obtain ch where
    ch: "Print_loop solution w nxt (out @ [w]) = Some (Inr ((out @ [w]) @ ch))" "length ch = n"
    by blast
  have "Print_loop solution v w out = Some (Inr (out @ (w # ch)))"
    using w(2) nxt ch(1) by (subst Print_loop.simps) simp
  then show ?case using ch(2) by (intro exI[of _ "w # ch"]) simp
qed

lemma ex_IsSolved: "IsSolved ex2" "\<not> IsSolved ex1"
  by (simp_all add: IsSolved_def ex1_def ex2_def)

lemma ex_dom: "dom ex_graph = {ex1, ex2}" "ex_graph ex1 = Some {ex2}" "ex_graph ex2 = Some {ex1}"
  by (auto simp: ex_graph_def ex_neq)

lemma ex_sorted: "sorted_list_of_set {ex1, ex2} = [ex2, ex1]"
proof -
  have "sorted_list_of_set {ex1, ex2} = sorted_list_of_set (set [ex1, ex2])" by simp
  also have "\<dots> = sort (remdups [ex1, ex2])" by (rule sorted_list_of_set_sort_remdups)
  also have "\<dots> = [ex2, ex1]" using ex_neq by (simp add: less_imp_le)
  finally show ?thesis .
qed

lemma ex_Solve: "Solve ex_graph = Some (Inr ex_solution)"
proof -
  have seed: "foldE Solve_seed (sorted_list_of_set (dom ex_graph)) (Map.empty, [])
      = Inr ([ex2 \<mapsto> ex2], [ex2])"
    unfolding ex_dom ex_sorted by (simp add: Solve_seed_def ex_IsSolved)
  have l3: "Solve_loop ex_graph (ex_solution, []) = Some (Inr ex_solution)"
    by (subst Solve_loop.simps) simp
  have l2: "Solve_loop ex_graph (ex_solution, [ex1]) = Some (Inr ex_solution)"
    by (subst Solve_loop.simps) (simp add: ex_dom Solve_visit_def ex_solution_def l3[unfolded ex_solution_def])
  have l1: "Solve_loop ex_graph ([ex2 \<mapsto> ex2], [ex2]) = Some (Inr ex_solution)"
    by (subst Solve_loop.simps)
       (simp add: ex_dom Solve_visit_def ex_neq l2[unfolded ex_solution_def] ex_solution_def)
  have "dom ex_solution = {ex1, ex2}" by (auto simp: ex_solution_def)
  then have c: "card (dom ex_solution) = card (dom ex_graph)" by (simp add: ex_dom)
  show ?thesis using seed l1 c by (simp add: Solve_def)
qed

lemma ex_Print: "Print ex1 ex_solution = Some (Inr [ex1, ex2])"
proof -
  have "Print_loop ex_solution ex2 ex2 [ex1, ex2] = Some (Inr [ex1, ex2])"
    by (subst Print_loop.simps) simp
  then have "Print_loop ex_solution ex1 ex2 [ex1] = Some (Inr [ex1, ex2])"
    by (subst Print_loop.simps) (simp add: ex_neq ex_solution_def)
  then show ?thesis by (simp add: Print_def ex_solution_def ex_neq)
qed

lemma Solve_generated_facts:
  assumes len: "length initial = 20" and gg: "GenerateGraph initial = Some (Inr g)"
    and sv: "Solve g = Some (Inr sol)"
  shows "dom sol = dom g" "SolveInv g (sol, [])" "\<exists>t\<in>dom g. IsSolved t"
proof -
  show ex: "\<exists>t\<in>dom g. IsSolved t"
  proof (rule ccontr)
    assume "\<not> (\<exists>t\<in>dom g. IsSolved t)"
    then have "Solve g = Some (Inl AssertionFailed)" by (rule Solve_generated(2)[OF len gg])
    then show False using sv by simp
  qed
  from Solve_generated(1)[OF len gg ex] sv show "dom sol = dom g" "SolveInv g (sol, [])"
    by auto
qed

text \<open>
  Claim C6 (map completeness). Let \<open>g\<close> be the graph that GenerateGraph returns for an
  initial state of 20 cells. Solve returns a map exactly if some vertex is solved, and
  fails its assertion on the sizes exactly if none is. A map that Solve returns has the
  vertices of the graph as its keys (so it has as many entries as the graph has vertices),
  maps every solved vertex to itself, and maps every other vertex to a different state,
  which is one of its neighbours in the graph.
\<close>

theorem map_completeness:
  assumes "length initial = 20" "GenerateGraph initial = Some (Inr g)"
  shows "((\<exists>sol. Solve g = Some (Inr sol)) \<longleftrightarrow> (\<exists>t\<in>dom g. IsSolved t)) \<and>
         (Solve g = Some (Inl AssertionFailed) \<longleftrightarrow> \<not> (\<exists>t\<in>dom g. IsSolved t)) \<and>
         (\<forall>sol. Solve g = Some (Inr sol) \<longrightarrow>
            card (dom sol) = card (dom g) \<and> dom sol = dom g \<and>
            (\<forall>v\<in>dom g. IsSolved v \<longrightarrow> sol v = Some v) \<and>
            (\<forall>v\<in>dom g. \<not> IsSolved v \<longrightarrow>
               (\<exists>w N. sol v = Some w \<and> w \<noteq> v \<and> g v = Some N \<and> w \<in> N)))"
proof (intro conjI)
  note G = GenerateGraph_graph[OF assms]
  note S = Solve_generated[OF assms]
  show "(\<exists>sol. Solve g = Some (Inr sol)) \<longleftrightarrow> (\<exists>t\<in>dom g. IsSolved t)"
    using S Solve_generated_facts(3)[OF assms] by blast
  show "Solve g = Some (Inl AssertionFailed) \<longleftrightarrow> \<not> (\<exists>t\<in>dom g. IsSolved t)"
  proof
    assume a: "Solve g = Some (Inl AssertionFailed)"
    show "\<not> (\<exists>t\<in>dom g. IsSolved t)"
    proof
      assume "\<exists>t\<in>dom g. IsSolved t"
      from S(1)[OF this] a show False by auto
    qed
  next
    assume "\<not> (\<exists>t\<in>dom g. IsSolved t)"
    then show "Solve g = Some (Inl AssertionFailed)" by (rule S(2))
  qed
  show "\<forall>sol. Solve g = Some (Inr sol) \<longrightarrow>
            card (dom sol) = card (dom g) \<and> dom sol = dom g \<and>
            (\<forall>v\<in>dom g. IsSolved v \<longrightarrow> sol v = Some v) \<and>
            (\<forall>v\<in>dom g. \<not> IsSolved v \<longrightarrow>
               (\<exists>w N. sol v = Some w \<and> w \<noteq> v \<and> g v = Some N \<and> w \<in> N))"
  proof (intro allI impI)
    fix sol assume sv: "Solve g = Some (Inr sol)"
    note F = Solve_generated_facts[OF assms sv]
    have 1: "dom sol = dom g" by (rule F(1))
    have 2: "\<forall>v\<in>dom g. IsSolved v \<longrightarrow> sol v = Some v"
      using F(2) unfolding SolveInv_def fst_conv by blast
    have 3: "\<exists>w N. sol v = Some w \<and> w \<noteq> v \<and> g v = Some N \<and> w \<in> N"
      if "v \<in> dom g" "\<not> IsSolved v" for v
    proof -
      from that(1) 1 obtain w where w: "sol v = Some w" by auto
      from SolveInv_parent[OF F(2) w] that(2) have "w \<noteq> v" "Edge g w v" by auto
      then have "Edge g v w" using G(2) by blast
      then show ?thesis using w \<open>w \<noteq> v\<close> by (auto simp: Edge_def)
    qed
    from 1 2 3 show "card (dom sol) = card (dom g) \<and> dom sol = dom g \<and>
            (\<forall>v\<in>dom g. IsSolved v \<longrightarrow> sol v = Some v) \<and>
            (\<forall>v\<in>dom g. \<not> IsSolved v \<longrightarrow>
               (\<exists>w N. sol v = Some w \<and> w \<noteq> v \<and> g v = Some N \<and> w \<in> N))"
      by simp
  qed
qed

theorem map_completeness_witness:
  "length ex1 = 20 \<and> GenerateGraph ex1 = Some (Inr ex_graph) \<and>
   Solve ex_graph = Some (Inr ex_solution) \<and>
   card (dom ex_solution) = card (dom ex_graph) \<and> dom ex_solution = dom ex_graph \<and>
   ex2 \<in> dom ex_graph \<and> IsSolved ex2 \<and> ex_solution ex2 = Some ex2 \<and>
   ex1 \<in> dom ex_graph \<and> \<not> IsSolved ex1 \<and> ex_solution ex1 = Some ex2 \<and>
   ex_graph ex1 = Some {ex2}"
proof -
  from map_completeness[OF ex_length(1) ex_GenerateGraph, THEN conjunct2, THEN conjunct2,
      rule_format, OF ex_Solve]
  have "card (dom ex_solution) = card (dom ex_graph) \<and> dom ex_solution = dom ex_graph"
    by simp
  then show ?thesis
    using ex_length(1) ex_GenerateGraph ex_Solve ex_IsSolved ex_dom
    by (simp add: ex_solution_def ex_neq)
qed

text \<open>
  Claim C2 (next-step correctness). Let \<open>g\<close> be the graph that GenerateGraph returns for an
  initial state of 20 cells, \<open>sol\<close> the map that Solve returns for it, and \<open>V\<close> a vertex.
  Then for some \<open>n\<close>, \<open>n\<close> lookups in the map from \<open>V\<close> reach a solved vertex \<open>t\<close> that is
  mapped to itself, and no fewer lookups reach a state mapped to itself; the lookups follow
  a path of \<open>n\<close> edges of the graph; no path from \<open>V\<close> to a solved vertex has fewer than \<open>n\<close>
  edges; and \<open>n\<close> is zero if \<open>V\<close> is solved.
\<close>

theorem next_step_correct:
  assumes "length initial = 20" "GenerateGraph initial = Some (Inr g)"
    and "Solve g = Some (Inr sol)" and "V \<in> dom g"
  shows "\<exists>n t. Follow sol n V = Some t \<and> sol t = Some t \<and> IsSolved t \<and> t \<in> dom g \<and>
           (\<forall>k<n. \<forall>u. Follow sol k V = Some u \<longrightarrow> sol u \<noteq> Some u) \<and>
           Walk g V n t \<and>
           (\<forall>m t'. t' \<in> dom g \<and> IsSolved t' \<and> Walk g V m t' \<longrightarrow> n \<le> m) \<and>
           (IsSolved V \<longrightarrow> n = 0)"
proof -
  note G = GenerateGraph_graph[OF assms(1,2)]
  note F = Solve_generated_facts[OF assms(1,2,3)]
  from SolveInv_level[OF F(2)] assms(4) F(1) obtain n where
    n: "Steps sol V n" "MinDist g V n" by blast
  have par: "Edge g a b" if "sol a = Some b" "b \<noteq> a" for a b
    using SolveInv_parent[OF F(2) that(1)] that(2) G(2) by blast
  from Steps_Follow[of sol g, OF par n(1)] obtain t where
    t: "Follow sol n V = Some t" "sol t = Some t" "Walk g V n t"
      "\<forall>k<n. \<forall>u. Follow sol k V = Some u \<longrightarrow> sol u \<noteq> Some u" by blast
  have 1: "IsSolved t" using SolveInv_parent[OF F(2) t(2)] by blast
  have 2: "t \<in> dom g" using t(2) F(1) by auto
  have 3: "n \<le> m" if "t' \<in> dom g" "IsSolved t'" "Walk g V m t'" for m t'
  proof -
    have "Walk g t' m V" using Walk_sym[of g, OF G(2) that(3)] .
    then have "FromGoal g m V" using that(1,2) by (auto simp: FromGoal_def)
    then show ?thesis using n(2) by (simp add: MinDist_def)
  qed
  have 4: "n = 0" if "IsSolved V"
    using 3[OF assms(4) that Walk.stay] by simp
  from t 1 2 3 4 show ?thesis by blast
qed

theorem next_step_correct_witness:
  "length ex1 = 20 \<and> GenerateGraph ex1 = Some (Inr ex_graph) \<and>
   Solve ex_graph = Some (Inr ex_solution) \<and> ex1 \<in> dom ex_graph \<and>
   (\<exists>n t. Follow ex_solution n ex1 = Some t \<and> ex_solution t = Some t \<and> IsSolved t \<and>
           t \<in> dom ex_graph \<and>
           (\<forall>k<n. \<forall>u. Follow ex_solution k ex1 = Some u \<longrightarrow> ex_solution u \<noteq> Some u) \<and>
           Walk ex_graph ex1 n t \<and>
           (\<forall>m t'. t' \<in> dom ex_graph \<and> IsSolved t' \<and> Walk ex_graph ex1 m t' \<longrightarrow> n \<le> m) \<and>
           (IsSolved ex1 \<longrightarrow> n = 0)) \<and>
   Follow ex_solution 1 ex1 = Some ex2"
proof -
  have d: "ex1 \<in> dom ex_graph" by (simp add: ex_dom)
  have f: "Follow ex_solution 1 ex1 = Some ex2" by (simp add: ex_solution_def ex_neq)
  from next_step_correct[OF ex_length(1) ex_GenerateGraph ex_Solve d]
  show ?thesis using ex_length(1) ex_GenerateGraph ex_Solve d f by blast
qed

lemma main_initial_fixed: "Normalize main_initial (GatherLabels main_initial) = Inr main_initial"
proof -
  have "GatherLabels main_initial = set ''123456789a''"
    by (auto simp: GatherLabels_eq main_initial_def)
  then show ?thesis
    by (simp add: Normalize_def sorted_list_of_set_sort_remdups main_initial_def)
qed

lemma Print_generated:
  assumes len: "length initial = 20" and gg: "GenerateGraph initial = Some (Inr g)"
    and sv: "Solve g = Some (Inr sol)"
  shows "initial \<in> dom sol \<longleftrightarrow> Normalize initial (GatherLabels initial) = Inr initial"
    and "initial \<in> dom sol \<Longrightarrow> \<exists>out. Print initial sol = Some (Inr out)"
    and "initial \<notin> dom sol \<Longrightarrow> Print initial sol = Some (Inl EndIteratorDereferenced)"
proof -
  note G = GenerateGraph_graph[OF len gg]
  note F = Solve_generated_facts[OF len gg sv]
  show "initial \<in> dom sol \<longleftrightarrow> Normalize initial (GatherLabels initial) = Inr initial"
  proof
    assume "initial \<in> dom sol"
    then show "Normalize initial (GatherLabels initial) = Inr initial"
      using F(1) G(4) by blast
  next
    assume "Normalize initial (GatherLabels initial) = Inr initial"
    then show "initial \<in> dom sol" using G(3) F(1) by auto
  qed
  show "\<exists>out. Print initial sol = Some (Inr out)" if "initial \<in> dom sol"
  proof -
    from that obtain w where w: "sol initial = Some w" by auto
    from SolveInv_level[OF F(2) that] obtain n where n: "Steps sol initial n" by blast
    have closed: "b \<in> dom sol" if "sol a = Some b" for a b
    proof -
      from SolveInv_parent[OF F(2) that] have "b = a \<or> Edge g b a" by blast
      then show ?thesis using that F(1) by (auto simp: Edge_def)
    qed
    have "\<exists>ch. Print_loop sol initial w [initial] = Some (Inr ([initial] @ ch)) \<and> length ch = n"
      using closed n w by (rule Print_loop_Steps)
    then show ?thesis using w by (auto simp: Print_def)
  qed
  show "Print initial sol = Some (Inl EndIteratorDereferenced)" if "initial \<notin> dom sol"
    using that by (auto simp: Print_def split: option.splits)
qed

text \<open>
  Claim C8, as stated, fails: Print has no assertion. On a state that is not a key of the
  map it dereferences the end iterator; it does not stop with a failed assertion.
\<close>

theorem Print_missing_key_counterexample:
  "ex_solution main_initial = None \<and>
   Print main_initial ex_solution = Some (Inl EndIteratorDereferenced) \<and>
   Print main_initial ex_solution \<noteq> Some (Inl AssertionFailed)"
  by (simp add: Print_def ex_solution_def main_initial_def ex1_def ex2_def)

text \<open>
  Claim C8, amended. If Print is called with an initial state that is not a key of the
  map, the end iterator that the lookup returns is dereferenced without a check: the
  behaviour is undefined, and no assertion fails.
\<close>

theorem Print_missing_key:
  "solution initial = None \<Longrightarrow>
     Print initial solution = Some (Inl EndIteratorDereferenced) \<and>
     Print initial solution \<noteq> Some (Inl AssertionFailed)"
  by (simp add: Print_def)

theorem Print_missing_key_witness:
  "(Map.empty :: Solution) ex1 = None \<and>
   Print ex1 Map.empty = Some (Inl EndIteratorDereferenced) \<and>
   Print ex1 Map.empty \<noteq> Some (Inl AssertionFailed)"
  using Print_missing_key[of Map.empty ex1] by simp

lemma main_Replay1:
  "Replay (set ''123456789a'') main_initial main_moves1 = Some main_state1"
  unfolding main_moves1_def main_initial_def main_state1_def
  by (simp add: Indices_def MoveBlock_def Normalize_def sorted_list_of_set_sort_remdups
        size_t_mod_def upt_rec SwapLabel_def)

lemma main_Replay2:
  "Replay (set ''123456789a'') main_state1 main_moves2 = Some main_state2"
  unfolding main_moves2_def main_state1_def main_state2_def
  by (simp add: Indices_def MoveBlock_def Normalize_def sorted_list_of_set_sort_remdups
        size_t_mod_def upt_rec SwapLabel_def)

lemma main_Replay3:
  "Replay (set ''123456789a'') main_state2 main_moves3 = Some main_state3"
  unfolding main_moves3_def main_state2_def main_state3_def
  by (simp add: Indices_def MoveBlock_def Normalize_def sorted_list_of_set_sort_remdups
        size_t_mod_def upt_rec SwapLabel_def)

lemma main_Replay4:
  "Replay (set ''123456789a'') main_state3 main_moves4 = Some main_state4"
  unfolding main_moves4_def main_state3_def main_state4_def
  by (simp add: Indices_def MoveBlock_def Normalize_def sorted_list_of_set_sort_remdups
        size_t_mod_def upt_rec SwapLabel_def)

lemma main_Replay5:
  "Replay (set ''123456789a'') main_state4 main_moves5 = Some main_state5"
  unfolding main_moves5_def main_state4_def main_state5_def
  by (simp add: Indices_def MoveBlock_def Normalize_def sorted_list_of_set_sort_remdups
        size_t_mod_def upt_rec SwapLabel_def)

lemma Replay_append:
  "Replay labels s (ms @ ms') =
     (case Replay labels s ms of None \<Rightarrow> None | Some t \<Rightarrow> Replay labels t ms')"
  by (induction ms arbitrary: s) (auto split: sum.splits)

lemma main_Replay:
  "Replay (GatherLabels main_initial) main_initial
     (main_moves1 @ main_moves2 @ main_moves3 @ main_moves4 @ main_moves5) = Some main_state5"
  by (simp only: main_labels Replay_append main_Replay1 main_Replay2 main_Replay3
      main_Replay4 main_Replay5 option.case)

lemma main_state5_solved: "IsSolved main_state5"
  by (simp add: IsSolved_def main_state5_def)

lemma Replay_Reachable:
  "Replay labels s ms = Some t \<Longrightarrow> Reachable labels init s \<Longrightarrow> Reachable labels init t"
proof (induction ms arbitrary: s)
  case Nil
  then show ?case by simp
next
  case (Cons m ms)
  from Cons.prems(1) obtain u where
    u: "fst m \<in> labels" "Feasible s (fst m) (snd m)"
      "Normalize (Slide s (fst m) (snd m)) labels = Inr u" "Replay labels u ms = Some t"
    by (auto simp: Feasible_def Slide_def split: if_splits sum.splits)
  then have "u \<in> Successors labels s" by (auto simp: Successors_def)
  then have "Reachable labels init u" using Cons.prems(2) Reachable.step by blast
  then show ?case using Cons.IH[OF u(4)] by blast
qed

text \<open>
  A run of the program on a board that can be solved: GenerateGraph returns a graph and
  Solve returns a map.
\<close>

lemma solvable_run:
  assumes len: "length initial = 20"
    and init: "Normalize initial (GatherLabels initial) = Inr init"
    and rp: "Replay (GatherLabels initial) init ms = Some t" and sv: "IsSolved t"
  shows "\<exists>g sol. GenerateGraph initial = Some (Inr g) \<and> Solve g = Some (Inr sol) \<and>
           t \<in> dom g \<and> dom sol = dom g"
proof -
  let ?L = "GatherLabels initial"
  have bl: "blank \<notin> ?L" by (simp add: GatherLabels_eq)
  from GenerateGraph_run[OF len] init obtain g where
    g: "wf_state ?L init" "GenerateGraph initial = Some (Inr g)" "Run ?L init (g, {})" by auto
  have "dom g = {s. Reachable ?L init s}"
    using Inv_closed[OF Run_Inv[OF g(3) g(1) bl]] .
  then have t: "t \<in> dom g" using Replay_Reachable[OF rp Reachable.start] by simp
  then have "\<exists>t\<in>dom g. IsSolved t" using sv by blast
  from Solve_generated(1)[OF len g(2) this] show ?thesis using g(2) t by blast
qed

lemma main_runs:
  "\<exists>g sol out. GenerateGraph main_initial = Some (Inr g) \<and> Solve g = Some (Inr sol) \<and>
     main_initial \<in> dom sol \<and> Print main_initial sol = Some (Inr out)"
proof -
  have len: "length main_initial = 20" by (simp add: main_initial_def)
  from solvable_run[OF len main_initial_fixed main_Replay main_state5_solved] obtain g sol where
    gs: "GenerateGraph main_initial = Some (Inr g)" "Solve g = Some (Inr sol)" by blast
  note P = Print_generated[OF len gs]
  have "main_initial \<in> dom sol" using P(1) main_initial_fixed by simp
  then show ?thesis using P(2) gs by blast
qed

lemma ex3_Normalize:
  "Normalize ex3 (GatherLabels ex3) = Inr (''1111'' @ ''1111'' @ ''2222'' @ ''2222'' @ ''    '')"
proof -
  have lab: "GatherLabels ex3 = set ''12''" by (auto simp: GatherLabels_eq ex3_def)
  have "Normalize ex3 (set ''12'') = Inr (''1111'' @ ''1111'' @ ''2222'' @ ''2222'' @ ''    '')"
    unfolding ex3_def
    by (simp add: Normalize_def sorted_list_of_set_sort_remdups SwapLabel_def)
  then show ?thesis by (simp only: lab)
qed

lemma ex3_runs:
  "\<exists>g sol. GenerateGraph ex3 = Some (Inr g) \<and> Solve g = Some (Inr sol)"
proof -
  have len: "length ex3 = 20" by (simp add: ex3_def)
  have lab: "GatherLabels ex3 = set ''12''" by (auto simp: GatherLabels_eq ex3_def)
  have "Replay (set ''12'') (''1111'' @ ''1111'' @ ''2222'' @ ''2222'' @ ''    '')
      [(CHR ''2'', BOTTOM)] = Some (''1111'' @ ''1111'' @ ''    '' @ ''2222'' @ ''2222'')"
    by (simp add: Indices_def MoveBlock_def Normalize_def sorted_list_of_set_sort_remdups
        size_t_mod_def upt_rec SwapLabel_def)
  then have rp: "Replay (GatherLabels ex3) (''1111'' @ ''1111'' @ ''2222'' @ ''2222'' @ ''    '')
      [(CHR ''2'', BOTTOM)] = Some (''1111'' @ ''1111'' @ ''    '' @ ''2222'' @ ''2222'')"
    by (simp only: lab)
  have sv: "IsSolved (''1111'' @ ''1111'' @ ''    '' @ ''2222'' @ ''2222'')"
    by (simp add: IsSolved_def)
  from solvable_run[OF len ex3_Normalize rp sv] show ?thesis by blast
qed

text \<open>
  Claim C10 (the initial state of main is normalised). The initial state of \<^verbatim>\<open>main\<close> is a
  fixed point of Normalize under the labels gathered from it. For every initial state of
  20 cells for which GenerateGraph returns a graph and Solve a map, the initial state is a
  key of the map exactly if it is a fixed point of Normalize under its gathered labels;
  if it is, Print returns the states it wrote, and if it is not, Print dereferences the
  end iterator that its first lookup returns. In \<^verbatim>\<open>main\<close> itself GenerateGraph returns a
  graph, Solve returns a map (the board has a solution), the initial state is a key of the
  map, and Print returns.
\<close>

theorem main_initial_lookup:
  "Normalize main_initial (GatherLabels main_initial) = Inr main_initial \<and>
   (\<forall>initial g sol.
      length initial = 20 \<and> GenerateGraph initial = Some (Inr g) \<and> Solve g = Some (Inr sol) \<longrightarrow>
        (initial \<in> dom sol \<longleftrightarrow> Normalize initial (GatherLabels initial) = Inr initial) \<and>
        (Normalize initial (GatherLabels initial) = Inr initial \<longrightarrow>
           (\<exists>out. Print initial sol = Some (Inr out))) \<and>
        (Normalize initial (GatherLabels initial) \<noteq> Inr initial \<longrightarrow>
           Print initial sol = Some (Inl EndIteratorDereferenced))) \<and>
   (\<exists>g sol out. GenerateGraph main_initial = Some (Inr g) \<and> Solve g = Some (Inr sol) \<and>
        main_initial \<in> dom sol \<and> Print main_initial sol = Some (Inr out))"
proof (intro conjI)
  show "Normalize main_initial (GatherLabels main_initial) = Inr main_initial"
    by (rule main_initial_fixed)
  show "\<forall>initial g sol.
      length initial = 20 \<and> GenerateGraph initial = Some (Inr g) \<and> Solve g = Some (Inr sol) \<longrightarrow>
        (initial \<in> dom sol \<longleftrightarrow> Normalize initial (GatherLabels initial) = Inr initial) \<and>
        (Normalize initial (GatherLabels initial) = Inr initial \<longrightarrow>
           (\<exists>out. Print initial sol = Some (Inr out))) \<and>
        (Normalize initial (GatherLabels initial) \<noteq> Inr initial \<longrightarrow>
           Print initial sol = Some (Inl EndIteratorDereferenced))"
  proof (intro allI impI, elim conjE)
    fix initial :: State and g :: Graph and sol :: Solution
    assume a: "length initial = 20" "GenerateGraph initial = Some (Inr g)"
      "Solve g = Some (Inr sol)"
    note P = Print_generated[OF a]
    show "(initial \<in> dom sol \<longleftrightarrow> Normalize initial (GatherLabels initial) = Inr initial) \<and>
        (Normalize initial (GatherLabels initial) = Inr initial \<longrightarrow>
           (\<exists>out. Print initial sol = Some (Inr out))) \<and>
        (Normalize initial (GatherLabels initial) \<noteq> Inr initial \<longrightarrow>
           Print initial sol = Some (Inl EndIteratorDereferenced))"
      using P(1) P(2) P(3) by blast
  qed
  show "\<exists>g sol out. GenerateGraph main_initial = Some (Inr g) \<and> Solve g = Some (Inr sol) \<and>
        main_initial \<in> dom sol \<and> Print main_initial sol = Some (Inr out)"
    by (rule main_runs)
qed

theorem main_initial_lookup_witness:
  "Normalize main_initial (GatherLabels main_initial) = Inr main_initial \<and>
   length ex1 = 20 \<and> GenerateGraph ex1 = Some (Inr ex_graph) \<and>
   Solve ex_graph = Some (Inr ex_solution) \<and>
   Normalize ex1 (GatherLabels ex1) = Inr ex1 \<and> ex1 \<in> dom ex_solution \<and>
   Print ex1 ex_solution = Some (Inr [ex1, ex2]) \<and>
   length ex3 = 20 \<and> Normalize ex3 (GatherLabels ex3) \<noteq> Inr ex3 \<and>
   (\<exists>g sol. GenerateGraph ex3 = Some (Inr g) \<and> Solve g = Some (Inr sol) \<and>
      ex3 \<notin> dom sol \<and> Print ex3 sol = Some (Inl EndIteratorDereferenced))"
proof -
  note T = main_initial_lookup[THEN conjunct2, THEN conjunct1, rule_format]
  have h: "length ex1 = 20 \<and> GenerateGraph ex1 = Some (Inr ex_graph) \<and>
      Solve ex_graph = Some (Inr ex_solution)"
    using ex_length(1) ex_GenerateGraph ex_Solve by simp
  have n: "Normalize ex1 (GatherLabels ex1) = Inr ex1" by (simp add: ex_labels ex_Normalize)
  from T[OF h] n have 1: "ex1 \<in> dom ex_solution" by simp
  have len3: "length ex3 = 20" by (simp add: ex3_def)
  have n3: "Normalize ex3 (GatherLabels ex3) \<noteq> Inr ex3"
    unfolding ex3_Normalize by (simp add: ex3_def)
  from ex3_runs obtain g sol where
    gs: "GenerateGraph ex3 = Some (Inr g)" "Solve g = Some (Inr sol)" by blast
  have "length ex3 = 20 \<and> GenerateGraph ex3 = Some (Inr g) \<and> Solve g = Some (Inr sol)"
    using len3 gs by simp
  from T[OF this] n3 have "ex3 \<notin> dom sol" "Print ex3 sol = Some (Inl EndIteratorDereferenced)"
    by simp_all
  then have 2: "\<exists>g sol. GenerateGraph ex3 = Some (Inr g) \<and> Solve g = Some (Inr sol) \<and>
      ex3 \<notin> dom sol \<and> Print ex3 sol = Some (Inl EndIteratorDereferenced)"
    using gs by blast
  show ?thesis using h n 1 2 len3 n3 main_initial_fixed ex_Print by simp
qed

end
